theory Spec2Isabelle
  imports Main "HOL-Library.Multiset"
begin

section \<open>Data model (src/types.ts)\<close>

text \<open>
  The four actions of \<^verbatim>\<open>ActionType\<close>.
\<close>

datatype ActionType = Create | Delete | Apply | Destroy

text \<open>
  \<^verbatim>\<open>RunStatus\<close>, one constructor per string literal of the union type.
\<close>

datatype RunStatus =
    pending | plan_queued | planning | planned | cost_estimating | cost_estimated
  | policy_checking | policy_override | policy_soft_failed | policy_checked
  | confirmed | apply_queued | applying | applied | discarded | errored
  | canceled | force_canceled

record VCSConfig =
  repository :: string
  branch :: "string option"
  oauth_token_id :: string

datatype var_value = VString string | VNumber int | VBoolean bool

datatype ExecutionMode = remote | local | agent

text \<open>
  \<^verbatim>\<open>WorkspaceConfig\<close>: every field is optional in the source, so every field is an
  option here. \<^verbatim>\<open>variables\<close> is an object, kept as the list of its entries.
\<close>

record WorkspaceConfig =
  vcs :: "VCSConfig option"
  variables :: "(string \<times> var_value) list option"
  auto_apply :: "bool option"
  terraform_version :: "string option"
  execution_mode :: "ExecutionMode option"
  variable_set_id :: "string option"
  dependsOn :: "string list option"

text \<open>
  \<^verbatim>\<open>TFEConfig.workspaces\<close> is a JavaScript object. It is modelled by the list of its own
  entries in the order of \<^verbatim>\<open>Object.keys\<close>; \<^verbatim>\<open>workspaces[name]\<close> is \<open>map_of\<close>. An object
  has each key once, which is the side condition \<open>distinct (map fst ws)\<close> of the theorems
  that need it. Names inherited from \<^verbatim>\<open>Object.prototype\<close> are outside the model.
\<close>

type_synonym workspaces_obj = "(string \<times> WorkspaceConfig) list"

record TFEConfig =
  action :: ActionType
  workspaces :: workspaces_obj

text \<open>
  The message of a thrown \<^verbatim>\<open>Error\<close>, one constructor per message template of the source:
  \<^item> \<open>CircularDependency p\<close>: \<^verbatim>\<open>Circular dependency detected: \<close> followed by the entries
    of \<open>p\<close> joined with \<^verbatim>\<open> -> \<close>;
  \<^item> \<open>NotDefined n d\<close>: \<^verbatim>\<open>Workspace 'n' depends on 'd', but 'd' is not defined\<close>;
  \<^item> \<open>NotDefinedInConfiguration n d\<close>: the same with \<^verbatim>\<open> in the configuration\<close> appended;
  \<^item> \<open>CannotDependOnItself n\<close>: \<^verbatim>\<open>Workspace 'n' cannot depend on itself\<close>;
  \<^item> \<open>DependencyValidationFailed m\<close>: \<^verbatim>\<open>Dependency validation failed: \<close> followed by \<open>m\<close>;
  \<^item> \<open>RunTimedOut r t\<close>: \<^verbatim>\<open>Run r timed out after t/1000 seconds\<close>;
  \<^item> \<open>FailedToGetRunStatus c\<close>: \<^verbatim>\<open>Failed to get run status: HTTP c\<close>;
  \<^item> \<open>NoResponseData\<close>: \<^verbatim>\<open>No response data from TFE API\<close>;
  \<^item> \<open>RunFailedWithStatus s\<close>: \<^verbatim>\<open>Run failed with status: s\<close>;
  \<^item> \<open>FailedToPollRunStatus x\<close>: \<^verbatim>\<open>Failed to poll run status: x\<close>;
  \<^item> \<open>UnknownError\<close>: \<^verbatim>\<open>Unknown error\<close>;
  \<^item> \<open>TypeErrorUndefined\<close>: the \<^verbatim>\<open>TypeError\<close> of reading a property of \<^verbatim>\<open>undefined\<close>;
  \<^item> \<open>ClientMessage s\<close>: the message \<open>s\<close> of an \<^verbatim>\<open>Error\<close> thrown by a client method.
\<close>

datatype error_msg =
    CircularDependency "string list"
  | NotDefined string string
  | NotDefinedInConfiguration string string
  | CannotDependOnItself string
  | DependencyValidationFailed error_msg
  | RunTimedOut string nat
  | FailedToGetRunStatus nat
  | NoResponseData
  | RunFailedWithStatus RunStatus
  | FailedToPollRunStatus string
  | UnknownError
  | TypeErrorUndefined
  | ClientMessage string

section \<open>Dependency resolver (src/dependency-resolver.ts)\<close>

text \<open>\<^verbatim>\<open>workspace.dependsOn || []\<close>\<close>

definition dependsOn_or_empty :: "WorkspaceConfig \<Rightarrow> string list" where
  "dependsOn_or_empty workspace = (case dependsOn workspace of None \<Rightarrow> [] | Some ds \<Rightarrow> ds)"

text \<open>\<^verbatim>\<open>workspaces[name]?.dependsOn || []\<close>\<close>

definition dependencies :: "workspaces_obj \<Rightarrow> string \<Rightarrow> string list" where
  "dependencies ws name =
     (case map_of ws name of None \<Rightarrow> [] | Some workspace \<Rightarrow> dependsOn_or_empty workspace)"

text \<open>
  The three variables that the closure \<^verbatim>\<open>visit\<close> of \<^verbatim>\<open>topologicalSort\<close> mutates.
\<close>

record sort_state =
  sorted :: "string list"
  visited :: "string set"
  visiting :: "string set"

text \<open>
  \<^verbatim>\<open>visit(name, path)\<close>, and the \<^verbatim>\<open>for (const dep of dependencies)\<close> loop of its body as
  \<open>visit_deps\<close>. A \<^verbatim>\<open>throw\<close> is the result \<open>Inl\<close>, which ends every enclosing call.
\<close>

function visit :: "workspaces_obj \<Rightarrow> string \<Rightarrow> string list \<Rightarrow> sort_state \<Rightarrow> error_msg + sort_state"
  and visit_deps ::
    "workspaces_obj \<Rightarrow> string \<Rightarrow> string list \<Rightarrow> string list \<Rightarrow> sort_state \<Rightarrow> error_msg + sort_state"
where
  "visit ws name path st =
     (if name \<in> visiting st then Inl (CircularDependency (path @ [name]))
      else if name \<in> visited st then Inr st
      else (case visit_deps ws name path (dependencies ws name)
                   (st\<lparr>visiting := insert name (visiting st)\<rparr>) of
              Inl e \<Rightarrow> Inl e
            | Inr st' \<Rightarrow>
                Inr (st'\<lparr>sorted := sorted st' @ [name],
                         visited := insert name (visited st'),
                         visiting := visiting st' - {name}\<rparr>)))"
| "visit_deps ws name path [] st = Inr st"
| "visit_deps ws name path (dep # deps) st =
     (if map_of ws dep = None then Inl (NotDefined name dep)
      else (case visit ws dep (path @ [name]) st of
              Inl e \<Rightarrow> Inl e
            | Inr st' \<Rightarrow> visit_deps ws name path deps st'))"
  by pat_completeness auto

text \<open>
  A call that returns leaves \<open>visiting\<close> as it found it. This is what makes the recursion
  end: each nested call runs with one more defined name in \<open>visiting\<close>.
\<close>

termination
proof -
  have preserved:
    "visit_visit_deps_dom (Inl (ws, name, path, st)) \<Longrightarrow>
       visit ws name path st = Inr st' \<Longrightarrow> visiting st' = visiting st"
    "visit_visit_deps_dom (Inr (ws, name, path, deps, st)) \<Longrightarrow>
       visit_deps ws name path deps st = Inr st' \<Longrightarrow> visiting st' = visiting st"
    for ws name path deps st st'
  proof (induction ws name path st and ws name path deps st arbitrary: st' and st'
         rule: visit_visit_deps.pinduct)
    case (1 ws name path st)
    note eq = visit.psimps[OF "1.hyps"]
    show ?case
    proof (cases "name \<in> visiting st \<or> name \<in> visited st")
      case True
      with "1.prems" eq show ?thesis by (auto split: if_splits)
    next
      case False
      then obtain st2 where
        r: "visit_deps ws name path (dependencies ws name)
              (st\<lparr>visiting := insert name (visiting st)\<rparr>) = Inr st2"
        and st': "st' = st2\<lparr>sorted := sorted st2 @ [name],
                           visited := insert name (visited st2),
                           visiting := visiting st2 - {name}\<rparr>"
        using "1.prems" eq by (auto split: sum.splits)
      from "1.IH"[OF _ _ r] False have "visiting st2 = insert name (visiting st)" by simp
      with st' False show ?thesis by auto
    qed
  next
    case (2 ws name path st)
    then show ?case by (simp add: visit_deps.psimps)
  next
    case (3 ws name path dep deps st)
    note eq = visit_deps.psimps(2)[OF "3.hyps"]
    from "3.prems" eq obtain st1 where
      d: "map_of ws dep \<noteq> None" and
      r1: "visit ws dep (path @ [name]) st = Inr st1" and
      r2: "visit_deps ws name path deps st1 = Inr st'"
      by (auto split: if_splits sum.splits)
    from "3.IH"(1)[OF d r1] "3.IH"(2)[OF d r1 r2] show ?case by simp
  qed
  show ?thesis
  proof (relation "measures [\<lambda>x. case x of
             Inl (ws, name, path, st) \<Rightarrow> card (fst ` set ws - visiting st)
           | Inr (ws, name, path, deps, st) \<Rightarrow> card (fst ` set ws - visiting st),
          \<lambda>x. case x of Inl _ \<Rightarrow> 1 | Inr (ws, name, path, deps, st) \<Rightarrow> 2 * length deps]",
      goal_cases)
    case 1
    show ?case by simp
  next
    case (2 ws name path st)
    show ?case
    proof (cases "name \<in> fst ` set ws")
      case True
      have "fst ` set ws - insert name (visiting st) \<subset> fst ` set ws - visiting st"
        using True 2 by auto
      then have "card (fst ` set ws - insert name (visiting st)) < card (fst ` set ws - visiting st)"
        by (intro psubset_card_mono) auto
      then show ?thesis by simp
    next
      case False
      then have "map_of ws name = None" by (simp add: map_of_eq_None_iff)
      then have "dependencies ws name = []" by (simp add: dependencies_def)
      moreover have "fst ` set ws - insert name (visiting st) = fst ` set ws - visiting st"
        using False by auto
      ultimately show ?thesis by simp
    qed
  next
    case (3 ws name path dep deps st)
    then show ?case by simp
  next
    case (4 ws name path dep deps st st1)
    from preserved(1)[OF 4(3) 4(2)] show ?case by simp
  qed
qed

declare visit.simps [simp del]

text \<open>The outer loop \<^verbatim>\<open>for (const name of names) visit(name)\<close>.\<close>

fun visit_all :: "workspaces_obj \<Rightarrow> string list \<Rightarrow> sort_state \<Rightarrow> error_msg + sort_state" where
  "visit_all ws [] st = Inr st"
| "visit_all ws (name # names) st =
     (case visit ws name [] st of
        Inl e \<Rightarrow> Inl e
      | Inr st' \<Rightarrow> visit_all ws names st')"

definition topologicalSort :: "workspaces_obj \<Rightarrow> string list \<Rightarrow> error_msg + string list" where
  "topologicalSort ws names =
     (case visit_all ws names \<lparr>sorted = [], visited = {}, visiting = {}\<rparr> of
        Inl e \<Rightarrow> Inl e
      | Inr st \<Rightarrow> Inr (sorted st))"

definition resolveExecutionOrder :: "TFEConfig \<Rightarrow> error_msg + string list" where
  "resolveExecutionOrder config =
     (let workspaceNames = map fst (workspaces config) in
      if action config = Create \<or> action config = Delete then Inr workspaceNames
      else if action config = Apply then topologicalSort (workspaces config) workspaceNames
      else (case topologicalSort (workspaces config) workspaceNames of
              Inl e \<Rightarrow> Inl e
            | Inr order \<Rightarrow> Inr (rev order)))"

text \<open>
  \<^verbatim>\<open>validateDependencies\<close>: the inner loop over one workspace's dependencies, the outer
  loop over \<^verbatim>\<open>Object.entries\<close>, then the trial resolution for apply and destroy.
\<close>

fun check_dependencies :: "string set \<Rightarrow> string \<Rightarrow> string list \<Rightarrow> error_msg + unit" where
  "check_dependencies workspaceNames name [] = Inr ()"
| "check_dependencies workspaceNames name (dep # deps) =
     (if dep \<notin> workspaceNames then Inl (NotDefinedInConfiguration name dep)
      else if dep = name then Inl (CannotDependOnItself name)
      else check_dependencies workspaceNames name deps)"

fun check_entries :: "string set \<Rightarrow> workspaces_obj \<Rightarrow> error_msg + unit" where
  "check_entries workspaceNames [] = Inr ()"
| "check_entries workspaceNames ((name, workspace) # entries) =
     (case check_dependencies workspaceNames name (dependsOn_or_empty workspace) of
        Inl e \<Rightarrow> Inl e
      | Inr _ \<Rightarrow> check_entries workspaceNames entries)"

definition validateDependencies :: "TFEConfig \<Rightarrow> error_msg + unit" where
  "validateDependencies config =
     (case check_entries (set (map fst (workspaces config))) (workspaces config) of
        Inl e \<Rightarrow> Inl e
      | Inr _ \<Rightarrow>
          if action config = Apply \<or> action config = Destroy then
            (case resolveExecutionOrder config of
               Inl e \<Rightarrow> Inl (DependencyValidationFailed e)
             | Inr _ \<Rightarrow> Inr ())
          else Inr ())"


section \<open>Backend, clock and trace\<close>

text \<open>
  The responses that the manager and \<^verbatim>\<open>waitForRun\<close> read: \<^verbatim>\<open>data.id\<close> and
  \<^verbatim>\<open>data.attributes['html-url']\<close> of a \<^verbatim>\<open>TFEWorkspaceResponse\<close>, \<^verbatim>\<open>data.id\<close> and
  \<^verbatim>\<open>data.attributes.status\<close> of a \<^verbatim>\<open>TFERunResponse\<close>, and the status code and parsed body that
  \<^verbatim>\<open>getJson\<close> of the HTTP client returns for the run URL.
\<close>

record TFEWorkspaceResponse =
  data_id :: string
  html_url :: string

record TFERunResponse =
  run_data_id :: string
  status :: RunStatus

record HttpRunResponse =
  statusCode :: nat
  result :: "TFERunResponse option"

text \<open>The options object that \<^verbatim>\<open>createSingleWorkspace\<close> passes to \<^verbatim>\<open>createWorkspace\<close>.\<close>

record WorkspaceOptions =
  autoApply :: "bool option"
  terraformVersion :: "string option"
  executionMode :: "ExecutionMode option"
  vcsOption :: "VCSConfig option"

text \<open>
  A thrown value is an \<^verbatim>\<open>Error\<close> with its message or some other value; the catch blocks
  of the source tell them apart with \<^verbatim>\<open>instanceof Error\<close>.
\<close>

datatype thrown = Error error_msg | NonError string

text \<open>
  The lines written with \<^verbatim>\<open>core.warning\<close> and \<^verbatim>\<open>core.error\<close>, one constructor per
  template. Lines written with \<^verbatim>\<open>core.info\<close> and \<^verbatim>\<open>core.debug\<close> are not recorded.
\<close>

datatype log_line =
    RunEndedWithStatus RunStatus
  | FailedToCreateWorkspace string error_msg
  | FailedToDeleteWorkspace string error_msg
  | FailedToApplyWorkspace string error_msg
  | FailedToDestroyWorkspace string error_msg
  | StoppingApplyProcess string
  | FailedToDestroyContinuing string

text \<open>
  Everything the engine does to the outside: one event per call of a client method, per
  \<^verbatim>\<open>getJson\<close> poll of \<^verbatim>\<open>waitForRun\<close>, per \<^verbatim>\<open>setTimeout\<close> and per warning or error line.
\<close>

datatype event =
    CreateWorkspaceCall string string WorkspaceOptions
  | AttachVariableSetCall string string
  | CreateVariablesCall string "(string \<times> var_value) list"
  | DeleteWorkspaceCall string string
  | GetWorkspaceCall string string
  | CreateRunCall string string bool bool
  | GetRunCall string
  | SetTimeout nat
  | CoreWarning log_line
  | CoreError log_line

text \<open>
  The outside world as the engine sees it: \<open>now\<close> is what \<^verbatim>\<open>Date.now()\<close> returns, in
  milliseconds, and \<open>trace\<close> lists the events so far, oldest first.
\<close>

record world =
  now :: nat
  trace :: "event list"

text \<open>
  The backend answers each call as a function of the world in which the call is made, so
  an answer may depend on the time and on every earlier event. \<open>duration\<close> is the time an
  event takes; for \<^verbatim>\<open>setTimeout\<close> it is the time beyond the requested delay. The clock
  never runs backwards. While several requests are pending, \<open>next_response\<close> tells which of
  them is answered next: its position among the pending ones, taken modulo their number.
\<close>

record backend =
  createWorkspace :: "world \<Rightarrow> string \<Rightarrow> string \<Rightarrow> WorkspaceOptions \<Rightarrow> thrown + TFEWorkspaceResponse"
  attachVariableSet :: "world \<Rightarrow> string \<Rightarrow> string \<Rightarrow> thrown + unit"
  createVariables :: "world \<Rightarrow> string \<Rightarrow> (string \<times> var_value) list \<Rightarrow> thrown + unit"
  deleteWorkspace :: "world \<Rightarrow> string \<Rightarrow> string \<Rightarrow> thrown + unit"
  getWorkspace :: "world \<Rightarrow> string \<Rightarrow> string \<Rightarrow> thrown + TFEWorkspaceResponse"
  createRun :: "world \<Rightarrow> string \<Rightarrow> string \<Rightarrow> bool \<Rightarrow> bool \<Rightarrow> thrown + TFERunResponse"
  getJson :: "world \<Rightarrow> string \<Rightarrow> thrown + HttpRunResponse"
  duration :: "world \<Rightarrow> event \<Rightarrow> nat"
  next_response :: "world \<Rightarrow> nat"

definition requested_delay :: "event \<Rightarrow> nat" where
  "requested_delay ev = (case ev of SetTimeout ms \<Rightarrow> ms | _ \<Rightarrow> 0)"

definition perform :: "backend \<Rightarrow> event \<Rightarrow> world \<Rightarrow> world" where
  "perform be ev w =
     \<lparr>now = now w + requested_delay ev + duration be w ev, trace = trace w @ [ev]\<rparr>"

section \<open>Run tracker (TFEClient.waitForRun)\<close>

definition pollInterval :: nat where
  "pollInterval = 5000"

definition defaultTimeout :: nat where
  "defaultTimeout = 1800000"

definition terminalStates :: "RunStatus list" where
  "terminalStates = [applied, errored, canceled, force_canceled, discarded]"

text \<open>
  One pass through the body of \<^verbatim>\<open>while (true)\<close> after the timeout check: the poll, the
  classification of its answer, and the wait before the next poll. \<open>Some\<close> is a return or
  a throw of \<^verbatim>\<open>waitForRun\<close>, \<open>None\<close> is falling through to the next iteration. The
  \<^verbatim>\<open>catch\<close> rethrows an \<^verbatim>\<open>Error\<close> and wraps any other thrown value.
\<close>

definition poll_once :: "backend \<Rightarrow> string \<Rightarrow> world \<Rightarrow> (thrown + TFERunResponse) option \<times> world" where
  "poll_once be runId w =
     (let w1 = perform be (GetRunCall runId) w in
      case getJson be w runId of
        Inl (Error e) \<Rightarrow> (Some (Inl (Error e)), w1)
      | Inl (NonError x) \<Rightarrow> (Some (Inl (Error (FailedToPollRunStatus x))), w1)
      | Inr response \<Rightarrow>
          if statusCode response \<noteq> 200
          then (Some (Inl (Error (FailedToGetRunStatus (statusCode response)))), w1)
          else (case result response of
                  None \<Rightarrow> (Some (Inl (Error NoResponseData)), w1)
                | Some run \<Rightarrow>
                    if status run \<in> set terminalStates then
                      (if status run = applied then (Some (Inr run), w1)
                       else if status run = errored
                       then (Some (Inl (Error (RunFailedWithStatus (status run)))), w1)
                       else (Some (Inr run),
                             perform be (CoreWarning (RunEndedWithStatus (status run))) w1))
                    else (None, perform be (SetTimeout pollInterval) w1)))"

lemma poll_once_continue:
  "poll_once be runId w = (None, w') \<Longrightarrow> now w + pollInterval \<le> now w'"
  by (auto simp: poll_once_def perform_def requested_delay_def Let_def
           split: sum.splits thrown.splits if_splits option.splits)

function waitForRun_loop ::
  "backend \<Rightarrow> string \<Rightarrow> nat \<Rightarrow> nat \<Rightarrow> world \<Rightarrow> (thrown + TFERunResponse) \<times> world"
where
  "waitForRun_loop be runId timeout startTime w =
     (if now w - startTime > timeout then (Inl (Error (RunTimedOut runId timeout)), w)
      else (case poll_once be runId w of
              (Some outcome, w') \<Rightarrow> (outcome, w')
            | (None, w') \<Rightarrow> waitForRun_loop be runId timeout startTime w'))"
  by pat_completeness auto
termination
proof (relation "measure (\<lambda>(be, runId, timeout, startTime, w). startTime + timeout + 1 - now w)",
    goal_cases)
  case 1
  show ?case by simp
next
  case 2
  then show ?case
    by (auto dest!: poll_once_continue poll_once_continue[OF sym] simp: pollInterval_def)
qed

declare waitForRun_loop.simps [simp del]

text \<open>\<^verbatim>\<open>waitForRun(runId, timeout = 1800000)\<close>; \<open>None\<close> is the omitted second argument.\<close>

definition waitForRun ::
  "backend \<Rightarrow> string \<Rightarrow> nat option \<Rightarrow> world \<Rightarrow> (thrown + TFERunResponse) \<times> world"
where
  "waitForRun be runId timeout_arg w =
     waitForRun_loop be runId
       (case timeout_arg of None \<Rightarrow> defaultTimeout | Some timeout \<Rightarrow> timeout) (now w) w"

section \<open>Workspace manager (WorkspaceManager)\<close>

record WorkspaceOperationResult =
  workspace :: string
  success :: bool
  workspaceId :: "string option"
  workspaceUrl :: "string option"
  error :: "error_msg option"

text \<open>\<^verbatim>\<open>error instanceof Error ? error.message : 'Unknown error'\<close>\<close>

definition errorMessage :: "thrown \<Rightarrow> error_msg" where
  "errorMessage t = (case t of Error m \<Rightarrow> m | NonError _ \<Rightarrow> UnknownError)"

text \<open>The object literal that every \<^verbatim>\<open>catch\<close> block of the manager returns.\<close>

definition failure_result :: "string \<Rightarrow> error_msg \<Rightarrow> WorkspaceOperationResult" where
  "failure_result name m =
     \<lparr>workspace = name, success = False, workspaceId = None, workspaceUrl = None,
      error = Some m\<rparr>"

subsection \<open>create and delete: pending attempts\<close>

text \<open>
  A call of an async function runs until its first \<^verbatim>\<open>await\<close>, which issues a request, and
  is then pending; when the request is answered its continuation runs until the next
  \<^verbatim>\<open>await\<close> or until it returns. A \<open>task\<close> is such a call of \<^verbatim>\<open>createSingleWorkspace\<close> or
  \<^verbatim>\<open>deleteSingleWorkspace\<close>: the request it is waiting for, with the local variables the
  continuation reads and the answer of the backend (an answer is a function of the world
  in which the request is issued), or the result it has returned.
\<close>

datatype task =
    CreateWorkspaceRequested string WorkspaceConfig "thrown + TFEWorkspaceResponse"
  | AttachVariableSetRequested string WorkspaceConfig TFEWorkspaceResponse "thrown + unit"
  | CreateVariablesRequested string TFEWorkspaceResponse "thrown + unit"
  | DeleteWorkspaceRequested string "thrown + unit"
  | Settled WorkspaceOperationResult

text \<open>The options object literal of \<^verbatim>\<open>createSingleWorkspace\<close>.\<close>

definition workspace_options :: "WorkspaceConfig \<Rightarrow> WorkspaceOptions" where
  "workspace_options config =
     \<lparr>autoApply = auto_apply config, terraformVersion = terraform_version config,
      executionMode = execution_mode config, vcsOption = vcs config\<rparr>"

text \<open>The \<^verbatim>\<open>catch\<close> block and the final \<^verbatim>\<open>return\<close> of \<^verbatim>\<open>createSingleWorkspace\<close>.\<close>

definition create_caught :: "backend \<Rightarrow> string \<Rightarrow> thrown \<Rightarrow> world \<Rightarrow> task \<times> world" where
  "create_caught be name t w =
     (Settled (failure_result name (errorMessage t)),
      perform be (CoreError (FailedToCreateWorkspace name (errorMessage t))) w)"

definition create_returned :: "string \<Rightarrow> TFEWorkspaceResponse \<Rightarrow> task" where
  "create_returned name response =
     Settled \<lparr>workspace = name, success = True, workspaceId = Some (data_id response),
              workspaceUrl = Some (html_url response), error = None\<rparr>"

text \<open>
  \<^verbatim>\<open>if (config.variables && Object.keys(config.variables).length > 0)\<close>: issue
  \<^verbatim>\<open>createVariables\<close> and wait, or return the success.
\<close>

definition variables_or_return ::
  "backend \<Rightarrow> string \<Rightarrow> WorkspaceConfig \<Rightarrow> TFEWorkspaceResponse \<Rightarrow> world \<Rightarrow> task \<times> world"
where
  "variables_or_return be name config response w =
     (case variables config of
        None \<Rightarrow> (create_returned name response, w)
      | Some vars \<Rightarrow>
          if length vars > 0
          then (CreateVariablesRequested name response
                  (createVariables be w (data_id response) vars),
                perform be (CreateVariablesCall (data_id response) vars) w)
          else (create_returned name response, w))"

text \<open>
  \<^verbatim>\<open>if (config['variable-set-id'])\<close>, where the empty string is falsy: issue
  \<^verbatim>\<open>attachVariableSet\<close> and wait, or go on to the variables.
\<close>

definition attach_or_later ::
  "backend \<Rightarrow> string \<Rightarrow> WorkspaceConfig \<Rightarrow> TFEWorkspaceResponse \<Rightarrow> world \<Rightarrow> task \<times> world"
where
  "attach_or_later be name config response w =
     (case variable_set_id config of
        None \<Rightarrow> variables_or_return be name config response w
      | Some varset \<Rightarrow>
          if varset = [] then variables_or_return be name config response w
          else (AttachVariableSetRequested name config response
                  (attachVariableSet be w varset (data_id response)),
                perform be (AttachVariableSetCall varset (data_id response)) w))"

text \<open>
  The call \<^verbatim>\<open>createSingleWorkspace(name, config)\<close> up to its first \<^verbatim>\<open>await\<close>, which issues
  \<^verbatim>\<open>createWorkspace\<close>. \<^verbatim>\<open>config.workspaces[name]\<close> may be \<^verbatim>\<open>undefined\<close>; then reading
  \<^verbatim>\<open>config['auto-apply']\<close> throws inside the \<^verbatim>\<open>try\<close> before any request, and the call
  returns the failure at once.
\<close>

definition createSingleWorkspace ::
  "backend \<Rightarrow> string \<Rightarrow> string \<Rightarrow> WorkspaceConfig option \<Rightarrow> world \<Rightarrow> task \<times> world"
where
  "createSingleWorkspace be organization name config_arg w =
     (case config_arg of
        None \<Rightarrow> create_caught be name (Error TypeErrorUndefined) w
      | Some config \<Rightarrow>
          (CreateWorkspaceRequested name config
             (createWorkspace be w organization name (workspace_options config)),
           perform be (CreateWorkspaceCall organization name (workspace_options config)) w))"

text \<open>The call \<^verbatim>\<open>deleteSingleWorkspace(name)\<close> up to its \<^verbatim>\<open>await\<close>.\<close>

definition deleteSingleWorkspace ::
  "backend \<Rightarrow> string \<Rightarrow> string \<Rightarrow> world \<Rightarrow> task \<times> world"
where
  "deleteSingleWorkspace be organization name w =
     (DeleteWorkspaceRequested name (deleteWorkspace be w organization name),
      perform be (DeleteWorkspaceCall organization name) w)"

text \<open>
  The continuation of a pending call once its request is answered: a thrown answer goes
  to the \<^verbatim>\<open>catch\<close> block, any other answer to the statements after the \<^verbatim>\<open>await\<close>.
\<close>

fun resume :: "backend \<Rightarrow> task \<Rightarrow> world \<Rightarrow> task \<times> world" where
  "resume be (CreateWorkspaceRequested name config answer) w =
     (case answer of
        Inl t \<Rightarrow> create_caught be name t w
      | Inr response \<Rightarrow> attach_or_later be name config response w)"
| "resume be (AttachVariableSetRequested name config response answer) w =
     (case answer of
        Inl t \<Rightarrow> create_caught be name t w
      | Inr _ \<Rightarrow> variables_or_return be name config response w)"
| "resume be (CreateVariablesRequested name response answer) w =
     (case answer of
        Inl t \<Rightarrow> create_caught be name t w
      | Inr _ \<Rightarrow> (create_returned name response, w))"
| "resume be (DeleteWorkspaceRequested name answer) w =
     (case answer of
        Inl t \<Rightarrow>
          (Settled (failure_result name (errorMessage t)),
           perform be (CoreError (FailedToDeleteWorkspace name (errorMessage t))) w)
      | Inr _ \<Rightarrow>
          (Settled \<lparr>workspace = name, success = True, workspaceId = None,
                    workspaceUrl = None, error = None\<rparr>, w))"
| "resume be (Settled res) w = (Settled res, w)"

subsection \<open>create and delete: Promise.all\<close>

text \<open>
  \<^verbatim>\<open>workspaceNames.map(...)\<close> calls the async function for each name in turn, so the first
  request of every task is issued, in dispatch order, before any continuation runs.
\<close>

fun dispatch :: "(world \<Rightarrow> task \<times> world) list \<Rightarrow> world \<Rightarrow> task list \<times> world" where
  "dispatch [] w = ([], w)"
| "dispatch (call # calls) w =
     (case call w of
        (t, w1) \<Rightarrow> (case dispatch calls w1 of (ts, w2) \<Rightarrow> (t # ts, w2)))"

fun is_settled :: "task \<Rightarrow> bool" where
  "is_settled (Settled res) = True"
| "is_settled _ = False"

text \<open>The positions of the pending tasks, counted from \<open>i\<close>.\<close>

fun pending_from :: "nat \<Rightarrow> task list \<Rightarrow> nat list" where
  "pending_from i [] = []"
| "pending_from i (t # ts) =
     (if is_settled t then pending_from (Suc i) ts else i # pending_from (Suc i) ts)"

text \<open>The number of requests a task may still wait for.\<close>

fun awaits_left :: "task \<Rightarrow> nat" where
  "awaits_left (CreateWorkspaceRequested name config answer) = 3"
| "awaits_left (AttachVariableSetRequested name config response answer) = 2"
| "awaits_left (CreateVariablesRequested name response answer) = 1"
| "awaits_left (DeleteWorkspaceRequested name answer) = 1"
| "awaits_left (Settled res) = 0"

lemma resume_awaits_left:
  "\<not> is_settled t \<Longrightarrow> awaits_left (fst (resume be t w)) < awaits_left t"
  by (cases t)
     (auto simp: create_caught_def create_returned_def attach_or_later_def
        variables_or_return_def split: sum.splits option.splits)

lemma pending_from_set:
  "set (pending_from i ts) = {i + k | k. k < length ts \<and> \<not> is_settled (ts ! k)}"
proof (induction ts arbitrary: i)
  case Nil
  then show ?case by simp
next
  case (Cons t ts)
  have "{i + k | k. k < length (t # ts) \<and> \<not> is_settled ((t # ts) ! k)}
        = (if is_settled t then {} else {i}) \<union>
          {Suc i + k | k. k < length ts \<and> \<not> is_settled (ts ! k)}"
    by (auto simp: less_Suc_eq_0_disj)
  with Cons.IH[of "Suc i"] show ?case by auto
qed

text \<open>
  The task that is resumed next: the pending one whose request is answered next, if any
  task is pending.
\<close>

definition next_pending :: "backend \<Rightarrow> task list \<Rightarrow> world \<Rightarrow> nat option" where
  "next_pending be tasks w =
     (case pending_from 0 tasks of
        [] \<Rightarrow> None
      | p # ps \<Rightarrow> Some ((p # ps) ! (next_response be w mod length (p # ps))))"

lemma next_pending_Some:
  assumes "next_pending be tasks w = Some i"
  shows "i < length tasks \<and> \<not> is_settled (tasks ! i)"
proof -
  from assms obtain p ps where p: "pending_from 0 tasks = p # ps"
    and i: "i = (p # ps) ! (next_response be w mod length (p # ps))"
    by (auto simp: next_pending_def split: list.splits)
  have "i \<in> set (pending_from 0 tasks)"
    unfolding p i by (rule nth_mem) simp
  then show ?thesis by (auto simp: pending_from_set)
qed

text \<open>
  The wait of \<^verbatim>\<open>Promise.all\<close>: as long as a task is pending, the request that the backend
  answers next resumes its task.
\<close>

function await_all :: "backend \<Rightarrow> task list \<Rightarrow> world \<Rightarrow> task list \<times> world" where
  "await_all be tasks w =
     (case next_pending be tasks w of
        None \<Rightarrow> (tasks, w)
      | Some i \<Rightarrow>
          await_all be (tasks[i := fst (resume be (tasks ! i) w)])
            (snd (resume be (tasks ! i) w)))"
  by pat_completeness auto
termination
proof (relation "measure (\<lambda>(be, tasks, w). sum_list (map awaits_left tasks))", goal_cases)
  case 1
  show ?case by simp
next
  case (2 be tasks w i)
  from next_pending_Some[OF 2] have i: "i < length tasks" "\<not> is_settled (tasks ! i)"
    by simp_all
  let ?t = "fst (resume be (tasks ! i) w)"
  from resume_awaits_left[OF i(2)] have less: "awaits_left ?t < awaits_left (tasks ! i)" .
  have "sum_list (map awaits_left (tasks[i := ?t]))
        = sum_list (map awaits_left tasks) + awaits_left ?t - awaits_left (tasks ! i)"
    using i(1) by (simp add: map_update sum_list_update)
  moreover have "awaits_left (tasks ! i) \<le> sum_list (map awaits_left tasks)"
    using i(1) by (simp add: member_le_sum_list)
  ultimately show ?case using less by simp
qed

declare await_all.simps [simp del]

text \<open>The resolved array: the results of the tasks, in the order of the tasks.\<close>

fun settled_results :: "task list \<Rightarrow> WorkspaceOperationResult list" where
  "settled_results [] = []"
| "settled_results (Settled res # ts) = res # settled_results ts"
| "settled_results (t # ts) = settled_results ts"

text \<open>
  \<^verbatim>\<open>Promise.all(names.map(call))\<close>: dispatch every call, wait until all have returned, and
  resolve with their results in dispatch order. The clock adds up the durations of the
  requests although they overlap; these strategies never read it.
\<close>

definition promise_all ::
  "backend \<Rightarrow> (world \<Rightarrow> task \<times> world) list \<Rightarrow> world \<Rightarrow> WorkspaceOperationResult list \<times> world"
where
  "promise_all be calls w =
     (case dispatch calls w of
        (tasks, w1) \<Rightarrow>
          (case await_all be tasks w1 of (settled, w') \<Rightarrow> (settled_results settled, w')))"

definition createWorkspaces ::
  "backend \<Rightarrow> string \<Rightarrow> TFEConfig \<Rightarrow> string list \<Rightarrow> world \<Rightarrow>
     WorkspaceOperationResult list \<times> world"
where
  "createWorkspaces be organization config workspaceNames w =
     promise_all be
       (map (\<lambda>name. createSingleWorkspace be organization name (map_of (workspaces config) name))
            workspaceNames) w"

definition deleteWorkspaces ::
  "backend \<Rightarrow> string \<Rightarrow> TFEConfig \<Rightarrow> string list \<Rightarrow> world \<Rightarrow>
     WorkspaceOperationResult list \<times> world"
where
  "deleteWorkspaces be organization config workspaceNames w =
     promise_all be (map (\<lambda>name. deleteSingleWorkspace be organization name) workspaceNames) w"

subsection \<open>apply and destroy\<close>

text \<open>
  The \<^verbatim>\<open>try\<close> block shared in shape by \<^verbatim>\<open>applySingleWorkspace\<close> and
  \<^verbatim>\<open>destroySingleWorkspace\<close>: get the workspace, create the run with the given message and
  \<^verbatim>\<open>isDestroy\<close> flag (auto-apply is \<^verbatim>\<open>true\<close> in both), wait for the run. Its result is the
  thrown value or the workspace id.
\<close>

definition run_try ::
  "backend \<Rightarrow> string \<Rightarrow> string \<Rightarrow> string \<Rightarrow> bool \<Rightarrow> world \<Rightarrow> (thrown + string) \<times> world"
where
  "run_try be organization name message isDestroy w =
     (let w1 = perform be (GetWorkspaceCall organization name) w in
      case getWorkspace be w organization name of
        Inl t \<Rightarrow> (Inl t, w1)
      | Inr response \<Rightarrow>
          (let w2 = perform be (CreateRunCall (data_id response) message isDestroy True) w1 in
           case createRun be w1 (data_id response) message isDestroy True of
             Inl t \<Rightarrow> (Inl t, w2)
           | Inr run \<Rightarrow>
               (case waitForRun be (run_data_id run) None w2 of
                  (Inl t, w3) \<Rightarrow> (Inl t, w3)
                | (Inr _, w3) \<Rightarrow> (Inr (data_id response), w3))))"

definition applySingleWorkspace ::
  "backend \<Rightarrow> string \<Rightarrow> string \<Rightarrow> world \<Rightarrow> WorkspaceOperationResult \<times> world"
where
  "applySingleWorkspace be organization name w =
     (case run_try be organization name ''Apply triggered by GitHub Actions'' False w of
        (Inr wsId, w') \<Rightarrow>
          (\<lparr>workspace = name, success = True, workspaceId = Some wsId, workspaceUrl = None,
            error = None\<rparr>, w')
      | (Inl t, w') \<Rightarrow>
          (failure_result name (errorMessage t),
           perform be (CoreError (FailedToApplyWorkspace name (errorMessage t))) w'))"

definition destroySingleWorkspace ::
  "backend \<Rightarrow> string \<Rightarrow> string \<Rightarrow> world \<Rightarrow> WorkspaceOperationResult \<times> world"
where
  "destroySingleWorkspace be organization name w =
     (case run_try be organization name ''Destroy triggered by GitHub Actions'' True w of
        (Inr wsId, w') \<Rightarrow>
          (\<lparr>workspace = name, success = True, workspaceId = Some wsId, workspaceUrl = None,
            error = None\<rparr>, w')
      | (Inl t, w') \<Rightarrow>
          (failure_result name (errorMessage t),
           perform be (CoreError (FailedToDestroyWorkspace name (errorMessage t))) w'))"

text \<open>
  The loop of \<^verbatim>\<open>applyWorkspaces\<close>: push the result, and \<^verbatim>\<open>break\<close> on the first failure.
\<close>

fun applyWorkspaces ::
  "backend \<Rightarrow> string \<Rightarrow> string list \<Rightarrow> world \<Rightarrow> WorkspaceOperationResult list \<times> world"
where
  "applyWorkspaces be organization [] w = ([], w)"
| "applyWorkspaces be organization (name # names) w =
     (case applySingleWorkspace be organization name w of
        (res, w1) \<Rightarrow>
          if \<not> success res
          then ([res], perform be (CoreError (StoppingApplyProcess name)) w1)
          else (case applyWorkspaces be organization names w1 of
                  (results, w2) \<Rightarrow> (res # results, w2)))"

text \<open>
  The loop of \<^verbatim>\<open>destroyWorkspaces\<close>: push the result, warn on failure and go on.
\<close>

fun destroyWorkspaces ::
  "backend \<Rightarrow> string \<Rightarrow> string list \<Rightarrow> world \<Rightarrow> WorkspaceOperationResult list \<times> world"
where
  "destroyWorkspaces be organization [] w = ([], w)"
| "destroyWorkspaces be organization (name # names) w =
     (case destroySingleWorkspace be organization name w of
        (res, w1) \<Rightarrow>
          (case destroyWorkspaces be organization names
                  (if \<not> success res
                   then perform be (CoreWarning (FailedToDestroyContinuing name)) w1
                   else w1) of
             (results, w2) \<Rightarrow> (res # results, w2)))"

subsection \<open>execute\<close>

text \<open>
  \<^verbatim>\<open>execute\<close>: a throw of \<^verbatim>\<open>validateDependencies\<close> or \<^verbatim>\<open>resolveExecutionOrder\<close> rejects the
  promise (\<open>Inl\<close>); otherwise the strategy of the action runs on the resolved order.
\<close>

definition execute ::
  "backend \<Rightarrow> string \<Rightarrow> TFEConfig \<Rightarrow> world \<Rightarrow>
     (error_msg + WorkspaceOperationResult list) \<times> world"
where
  "execute be organization config w =
     (case validateDependencies config of
        Inl e \<Rightarrow> (Inl e, w)
      | Inr _ \<Rightarrow>
          (case resolveExecutionOrder config of
             Inl e \<Rightarrow> (Inl e, w)
           | Inr workspaceNames \<Rightarrow>
               (case (case action config of
                        Create \<Rightarrow> createWorkspaces be organization config workspaceNames w
                      | Delete \<Rightarrow> deleteWorkspaces be organization config workspaceNames w
                      | Apply \<Rightarrow> applyWorkspaces be organization workspaceNames w
                      | Destroy \<Rightarrow> destroyWorkspaces be organization workspaceNames w) of
                  (results, w') \<Rightarrow> (Inr results, w'))))"

section \<open>Properties of resolution orders\<close>

text \<open>
  \<open>deps_first ws xs\<close>: every entry of \<open>xs\<close> has all its declared dependencies among the
  entries before it.
\<close>

definition deps_first :: "workspaces_obj \<Rightarrow> string list \<Rightarrow> bool" where
  "deps_first ws xs \<longleftrightarrow> (\<forall>i<length xs. set (dependencies ws (xs ! i)) \<subseteq> set (take i xs))"

text \<open>
  The invariant of the traversal state: \<open>sorted\<close> lists \<open>visited\<close> without repetition and
  dependencies first, only defined names are visited, and nothing is both done and in
  progress.
\<close>

definition sort_inv :: "workspaces_obj \<Rightarrow> sort_state \<Rightarrow> bool" where
  "sort_inv ws st \<longleftrightarrow>
     distinct (sorted st) \<and> set (sorted st) = visited st \<and> visited st \<inter> visiting st = {} \<and>
     visited st \<subseteq> fst ` set ws \<and> deps_first ws (sorted st)"

text \<open>\<open>dep_step ws x y\<close>: workspace \<open>x\<close> declares a dependency on \<open>y\<close>.\<close>

definition dep_step :: "workspaces_obj \<Rightarrow> string \<Rightarrow> string \<Rightarrow> bool" where
  "dep_step ws x y \<longleftrightarrow> y \<in> set (dependencies ws x)"

text \<open>
  What an error of the traversal is, when the traversal stack is \<open>stack\<close>: a dependency that
  is declared and not defined, or a path that extends the stack along declared
  dependencies, has no repetition before its last entry, and ends in an entry that occurs
  earlier in it.
\<close>

definition cycle_report :: "workspaces_obj \<Rightarrow> string list \<Rightarrow> error_msg \<Rightarrow> bool" where
  "cycle_report ws stack e \<longleftrightarrow>
     (\<exists>n d. e = NotDefined n d \<and> d \<in> set (dependencies ws n) \<and> map_of ws d = None) \<or>
     (\<exists>p. e = CircularDependency p \<and> successively (dep_step ws) p \<and> distinct (butlast p) \<and>
          last p \<in> set (butlast p) \<and> (\<exists>q. p = stack @ q))"

text \<open>The dependency relation of a configuration, as a set of pairs.\<close>

definition dep_rel :: "workspaces_obj \<Rightarrow> (string \<times> string) set" where
  "dep_rel ws = {(n, d). d \<in> set (dependencies ws n)}"

text \<open>Every declared dependency of every entry is a key of the object.\<close>

definition deps_defined :: "workspaces_obj \<Rightarrow> bool" where
  "deps_defined ws \<longleftrightarrow>
     list_all (\<lambda>(name, workspace). list_all (\<lambda>dep. dep \<in> fst ` set ws) (dependsOn_or_empty workspace)) ws"

text \<open>
  \<open>reaches_cycle ws n\<close>: following declared dependencies from \<open>n\<close> (possibly not at all) leads
  to a workspace that lies on a dependency cycle.
\<close>

definition reaches_cycle :: "workspaces_obj \<Rightarrow> string \<Rightarrow> bool" where
  "reaches_cycle ws n \<longleftrightarrow> (\<exists>c. (n, c) \<in> (dep_rel ws)\<^sup>* \<and> (c, c) \<in> (dep_rel ws)\<^sup>+)"

text \<open>
  \<open>first_cyclic_dep ws x y\<close>: \<open>y\<close> is the first entry, in declaration order, of the
  dependencies of \<open>x\<close> from which a cycle can be reached.
\<close>

definition first_cyclic_dep :: "workspaces_obj \<Rightarrow> string \<Rightarrow> string \<Rightarrow> bool" where
  "first_cyclic_dep ws x y \<longleftrightarrow>
     (\<exists>before after. dependencies ws x = before @ y # after \<and>
        (\<forall>d\<in>set before. \<not> reaches_cycle ws d)) \<and>
     reaches_cycle ws y"

text \<open>
  The path the traversal is on when it closes a cycle: it starts at the first key of the
  object from which a cycle can be reached, every further entry is the first dependency of
  the entry before it from which a cycle can be reached, and it stops at the first entry
  that repeats an earlier one.
\<close>

definition traversal_path :: "workspaces_obj \<Rightarrow> string list \<Rightarrow> bool" where
  "traversal_path ws p \<longleftrightarrow>
     (\<exists>done rest. map fst ws = done @ hd p # rest \<and> (\<forall>k\<in>set done. \<not> reaches_cycle ws k)) \<and>
     reaches_cycle ws (hd p) \<and>
     successively (first_cyclic_dep ws) p \<and>
     distinct (butlast p) \<and> last p \<in> set (butlast p)"

section \<open>Properties of results and traces\<close>

text \<open>
  The shape of a result: a success carries no error, a failure carries an error message
  and neither a workspace id nor a URL.
\<close>

definition result_ok :: "WorkspaceOperationResult \<Rightarrow> bool" where
  "result_ok r \<longleftrightarrow>
     (if success r then error r = None
      else error r \<noteq> None \<and> workspaceId r = None \<and> workspaceUrl r = None)"

text \<open>The events that \<open>w'\<close> has beyond the trace of \<open>w\<close>.\<close>

definition new_events :: "world \<Rightarrow> world \<Rightarrow> event list" where
  "new_events w w' = drop (length (trace w)) (trace w')"

text \<open>\<open>w'\<close> is a later world than \<open>w\<close>: its trace starts with the trace of \<open>w\<close>.\<close>

definition extends :: "world \<Rightarrow> world \<Rightarrow> bool" where
  "extends w w' \<longleftrightarrow> take (length (trace w)) (trace w') = trace w"


text \<open>
  A task after its continuations have run in the worlds \<open>ws\<close>, one after the other. A
  settled task stays as it is.
\<close>

fun resumed :: "backend \<Rightarrow> task \<Rightarrow> world list \<Rightarrow> task" where
  "resumed be t [] = t"
| "resumed be t (w # ws) = resumed be (fst (resume be t w)) ws"

text \<open>The workspace a task works on, and the shape of the result it has returned, if any.\<close>

fun task_workspace :: "task \<Rightarrow> string" where
  "task_workspace (CreateWorkspaceRequested name config answer) = name"
| "task_workspace (AttachVariableSetRequested name config response answer) = name"
| "task_workspace (CreateVariablesRequested name response answer) = name"
| "task_workspace (DeleteWorkspaceRequested name answer) = name"
| "task_workspace (Settled res) = workspace res"

fun task_ok :: "task \<Rightarrow> bool" where
  "task_ok (Settled res) = result_ok res"
| "task_ok t = True"

text \<open>
  What an apply or destroy attempt needs in order to succeed: the workspace is found, the
  run is created, and \<^verbatim>\<open>waitForRun\<close> returns.
\<close>

definition run_completes :: "backend \<Rightarrow> string \<Rightarrow> string \<Rightarrow> string \<Rightarrow> bool \<Rightarrow> world \<Rightarrow> bool" where
  "run_completes be organization name message isDestroy w \<longleftrightarrow>
     (\<exists>found created final w3.
        getWorkspace be w organization name = Inr found \<and>
        createRun be (perform be (GetWorkspaceCall organization name) w)
          (data_id found) message isDestroy True = Inr created \<and>
        waitForRun be (run_data_id created) None
          (perform be (CreateRunCall (data_id found) message isDestroy True)
             (perform be (GetWorkspaceCall organization name) w)) = (Inr final, w3))"

section \<open>Example configurations and backends\<close>

text \<open>A workspace that declares the dependencies \<open>ds\<close> and nothing else.\<close>

definition ex_deps :: "string list \<Rightarrow> WorkspaceConfig" where
  "ex_deps ds = \<lparr>vcs = None, variables = None, auto_apply = None, terraform_version = None,
     execution_mode = None, variable_set_id = None, dependsOn = Some ds\<rparr>"

text \<open>Three workspaces in a chain of dependencies, the dependent one first.\<close>

definition ex_stack :: workspaces_obj where
  "ex_stack = [(''app'', ex_deps [''network'', ''database'']),
               (''network'', ex_deps []),
               (''database'', ex_deps [''network''])]"

text \<open>A cycle between \<open>a\<close> and \<open>b\<close>, reached from \<open>x\<close>.\<close>

definition ex_cycle :: workspaces_obj where
  "ex_cycle = [(''x'', ex_deps [''a'']), (''a'', ex_deps [''b'']), (''b'', ex_deps [''a''])]"

text \<open>A cycle, and a dependency on a name that is not defined.\<close>

definition ex_ghost :: workspaces_obj where
  "ex_ghost = [(''a'', ex_deps [''ghost'', ''b'']), (''b'', ex_deps [''a''])]"

text \<open>A workspace that lists itself.\<close>

definition ex_self :: workspaces_obj where
  "ex_self = [(''network'', ex_deps []), (''app'', ex_deps [''network'', ''app''])]"

text \<open>The world before anything has happened.\<close>

definition ex_world :: world where
  "ex_world = \<lparr>now = 0, trace = []\<rparr>"

text \<open>A backend whose calls fail for the names in \<open>failing\<close> and succeed otherwise, whose
  runs report \<open>statuses n\<close> at the poll that follows \<open>n\<close> earlier polls of the same
  run, whose calls take no time, and which answers pending requests in dispatch order.\<close>

definition ex_backend :: "string set \<Rightarrow> (nat \<Rightarrow> RunStatus) \<Rightarrow> backend" where
  "ex_backend failing statuses =
     \<lparr>createWorkspace = (\<lambda>w org name options.
          if name \<in> failing then Inl (Error (ClientMessage ''Failed to create workspace: HTTP 422''))
          else Inr \<lparr>data_id = ''ws-'' @ name, html_url = ''https://app.terraform.io/'' @ name\<rparr>),
      attachVariableSet = (\<lambda>w varset wsId.
          if varset \<in> failing then Inl (Error (ClientMessage ''Failed to attach variable set: HTTP 404''))
          else Inr ()),
      createVariables = (\<lambda>w wsId vars. Inr ()),
      deleteWorkspace = (\<lambda>w org name.
          if name \<in> failing then Inl (Error (ClientMessage ''Failed to delete workspace: HTTP 404''))
          else Inr ()),
      getWorkspace = (\<lambda>w org name.
          if name \<in> failing then Inl (Error (ClientMessage ''Failed to get workspace: HTTP 404''))
          else Inr \<lparr>data_id = ''ws-'' @ name, html_url = ''https://app.terraform.io/'' @ name\<rparr>),
      createRun = (\<lambda>w wsId message isDestroy autoApplyFlag.
          Inr \<lparr>run_data_id = ''run-'' @ wsId, status = pending\<rparr>),
      getJson = (\<lambda>w runId.
          Inr \<lparr>statusCode = 200,
               result = Some \<lparr>run_data_id = runId,
                               status = statuses (count_list (trace w) (GetRunCall runId))\<rparr>\<rparr>),
      duration = (\<lambda>w ev. 0),
      next_response = (\<lambda>w. 0)\<rparr>"

text \<open>One workspace with a variable set to attach.\<close>

definition ex_varset :: workspaces_obj where
  "ex_varset = [(''db'', \<lparr>vcs = None, variables = None, auto_apply = None,
     terraform_version = None, execution_mode = None, variable_set_id = Some ''varset-1'',
     dependsOn = None\<rparr>)]"

text \<open>Status sequences for \<open>ex_backend\<close>.\<close>

definition applied_at_second_poll :: "nat \<Rightarrow> RunStatus" where
  "applied_at_second_poll n = (if n = 0 then planning else applied)"

definition canceled_at_second_poll :: "nat \<Rightarrow> RunStatus" where
  "canceled_at_second_poll n = (if n = 0 then planning else canceled)"


definition always_errored :: "nat \<Rightarrow> RunStatus" where
  "always_errored n = errored"

text \<open>Two workspaces that both attach a variable set.\<close>

definition ex_two_varsets :: workspaces_obj where
  "ex_two_varsets =
     [(''a'', \<lparr>vcs = None, variables = None, auto_apply = None, terraform_version = None,
              execution_mode = None, variable_set_id = Some ''varset-1'', dependsOn = None\<rparr>),
      (''b'', \<lparr>vcs = None, variables = None, auto_apply = None, terraform_version = None,
              execution_mode = None, variable_set_id = Some ''varset-1'', dependsOn = None\<rparr>)]"

text \<open>
  A backend whose answer depends on the calls before it: attaching a variable set fails
  when exactly two events precede the request.
\<close>

definition ex_order_backend :: backend where
  "ex_order_backend =
     (ex_backend {} applied_at_second_poll)
       \<lparr>attachVariableSet := (\<lambda>w varset wsId.
          if length (trace w) = 2
          then Inl (Error (ClientMessage ''Failed to attach variable set: HTTP 404''))
          else Inr ())\<rparr>"

section \<open>The traversal: invariants\<close>

lemma visiting_preserved:
  "visit ws name path st = Inr st' \<Longrightarrow> visiting st' = visiting st"
  "visit_deps ws name path deps st = Inr st' \<Longrightarrow> visiting st' = visiting st"
proof (induction ws name path st and ws name path deps st arbitrary: st' and st'
       rule: visit_visit_deps.induct)
  case (1 ws name path st)
  note eq = visit.simps[of ws name path st]
  show ?case
  proof (cases "name \<in> visiting st \<or> name \<in> visited st")
    case True
    with "1.prems" eq show ?thesis by (auto split: if_splits)
  next
    case False
    then obtain st2 where
      r: "visit_deps ws name path (dependencies ws name)
            (st\<lparr>visiting := insert name (visiting st)\<rparr>) = Inr st2"
      and st': "st' = st2\<lparr>sorted := sorted st2 @ [name],
                         visited := insert name (visited st2),
                         visiting := visiting st2 - {name}\<rparr>"
      using "1.prems" eq by (auto split: sum.splits)
    from "1.IH"[OF _ _ r] False have "visiting st2 = insert name (visiting st)" by simp
    with st' False show ?thesis by auto
  qed
next
  case (2 ws name path st)
  then show ?case by simp
next
  case (3 ws name path dep deps st)
  from "3.prems" obtain st1 where
    d: "map_of ws dep \<noteq> None" and
    r1: "visit ws dep (path @ [name]) st = Inr st1" and
    r2: "visit_deps ws name path deps st1 = Inr st'"
    by (auto split: if_splits sum.splits)
  from "3.IH"(1)[OF d r1] "3.IH"(2)[OF d r1 r2] show ?case by simp
qed

lemma deps_first_snoc:
  "deps_first ws (xs @ [n]) \<longleftrightarrow> deps_first ws xs \<and> set (dependencies ws n) \<subseteq> set xs"
proof -
  have "deps_first ws (xs @ [n]) \<longleftrightarrow>
        (\<forall>i<length xs. set (dependencies ws ((xs @ [n]) ! i)) \<subseteq> set (take i (xs @ [n]))) \<and>
        set (dependencies ws ((xs @ [n]) ! length xs)) \<subseteq> set (take (length xs) (xs @ [n]))"
    by (simp add: deps_first_def less_Suc_eq all_conj_distrib)
  also have "\<dots> \<longleftrightarrow> deps_first ws xs \<and> set (dependencies ws n) \<subseteq> set xs"
    by (simp add: deps_first_def nth_append)
  finally show ?thesis .
qed

lemma visit_sound:
  "visit ws name path st = Inr st' \<Longrightarrow> sort_inv ws st \<Longrightarrow> map_of ws name \<noteq> None \<Longrightarrow>
     sort_inv ws st' \<and> visited st \<subseteq> visited st' \<and> name \<in> visited st'"
  "visit_deps ws name path deps st = Inr st' \<Longrightarrow> sort_inv ws st \<Longrightarrow>
     sort_inv ws st' \<and> visited st \<subseteq> visited st' \<and> set deps \<subseteq> visited st'"
proof (induction ws name path st and ws name path deps st arbitrary: st' and st'
       rule: visit_visit_deps.induct)
  case (1 ws name path st)
  note eq = visit.simps[of ws name path st]
  show ?case
  proof (cases "name \<in> visiting st \<or> name \<in> visited st")
    case True
    with "1.prems" eq show ?thesis by (auto split: if_splits)
  next
    case False
    let ?st1 = "st\<lparr>visiting := insert name (visiting st)\<rparr>"
    from False obtain st2 where
      r: "visit_deps ws name path (dependencies ws name) ?st1 = Inr st2"
      and st': "st' = st2\<lparr>sorted := sorted st2 @ [name],
                         visited := insert name (visited st2),
                         visiting := visiting st2 - {name}\<rparr>"
      using "1.prems"(1) eq by (auto split: sum.splits)
    have inv1: "sort_inv ws ?st1"
      using "1.prems"(2) False by (auto simp: sort_inv_def)
    from "1.IH"[OF _ _ r inv1] False
    have inv2: "sort_inv ws st2" and mono: "visited ?st1 \<subseteq> visited st2"
      and deps: "set (dependencies ws name) \<subseteq> visited st2"
      by simp_all
    have vis2: "visiting st2 = insert name (visiting st)"
      using visiting_preserved(2)[OF r] by simp
    have nin: "name \<notin> visited st2"
      using inv2 vis2 by (auto simp: sort_inv_def)
    have key: "name \<in> fst ` set ws"
      using "1.prems"(3) by (metis map_of_eq_None_iff)
    have "sort_inv ws st'"
      using inv2 nin deps key unfolding st' sort_inv_def
      by (auto simp: deps_first_snoc)
    moreover have "visited st \<subseteq> visited st'" using mono st' by auto
    moreover have "name \<in> visited st'" using st' by simp
    ultimately show ?thesis by simp
  qed
next
  case (2 ws name path st)
  then show ?case by simp
next
  case (3 ws name path dep deps st)
  from "3.prems"(1) obtain st1 where
    d: "map_of ws dep \<noteq> None" and
    r1: "visit ws dep (path @ [name]) st = Inr st1" and
    r2: "visit_deps ws name path deps st1 = Inr st'"
    by (auto split: if_splits sum.splits)
  from "3.IH"(1)[OF d r1 "3.prems"(2) d]
  have inv1: "sort_inv ws st1" and m1: "visited st \<subseteq> visited st1" and d1: "dep \<in> visited st1"
    by simp_all
  from "3.IH"(2)[OF d r1 r2 inv1]
  have "sort_inv ws st'" and m2: "visited st1 \<subseteq> visited st'" and "set deps \<subseteq> visited st'"
    by simp_all
  with m1 d1 show ?case by auto
qed

lemma visit_all_sound:
  "visit_all ws names st = Inr st' \<Longrightarrow> sort_inv ws st \<Longrightarrow> set names \<subseteq> fst ` set ws \<Longrightarrow>
     sort_inv ws st' \<and> visited st \<subseteq> visited st' \<and> set names \<subseteq> visited st'"
proof (induction names arbitrary: st)
  case Nil
  then show ?case by simp
next
  case (Cons name names)
  from Cons.prems(1) obtain st1 where
    r1: "visit ws name [] st = Inr st1" and r2: "visit_all ws names st1 = Inr st'"
    by (auto split: sum.splits)
  have d: "map_of ws name \<noteq> None"
    using Cons.prems(3) by (simp add: map_of_eq_None_iff)
  from visit_sound(1)[OF r1 Cons.prems(2) d]
  have inv1: "sort_inv ws st1" and m1: "visited st \<subseteq> visited st1" and n1: "name \<in> visited st1"
    by simp_all
  from Cons.IH[OF r2 inv1] Cons.prems(3)
  have "sort_inv ws st'" and "visited st1 \<subseteq> visited st'" and "set names \<subseteq> visited st'"
    by simp_all
  with m1 n1 show ?case by auto
qed

lemma topologicalSort_sound:
  assumes "topologicalSort ws (map fst ws) = Inr order"
  shows "distinct order \<and> set order = fst ` set ws \<and> deps_first ws order"
proof -
  from assms obtain st' where
    r: "visit_all ws (map fst ws) \<lparr>sorted = [], visited = {}, visiting = {}\<rparr> = Inr st'"
    and o: "order = sorted st'"
    by (auto simp: topologicalSort_def split: sum.splits)
  have "sort_inv ws \<lparr>sorted = [], visited = {}, visiting = {}\<rparr>"
    by (simp add: sort_inv_def deps_first_def)
  from visit_all_sound[OF r this] have "sort_inv ws st'" "fst ` set ws \<subseteq> visited st'"
    by simp_all
  then show ?thesis unfolding o sort_inv_def by auto
qed

lemma visit_error:
  "visit ws name path st = Inl e \<Longrightarrow> visiting st = set path \<Longrightarrow> distinct path \<Longrightarrow>
     successively (dep_step ws) (path @ [name]) \<Longrightarrow>
     cycle_report ws (path @ [name]) e"
  "visit_deps ws name path deps st = Inl e \<Longrightarrow> visiting st = set (path @ [name]) \<Longrightarrow>
     distinct (path @ [name]) \<Longrightarrow> successively (dep_step ws) (path @ [name]) \<Longrightarrow>
     set deps \<subseteq> set (dependencies ws name) \<Longrightarrow>
     cycle_report ws (path @ [name]) e"
proof (induction ws name path st and ws name path deps st rule: visit_visit_deps.induct)
  case (1 ws name path st)
  note eq = visit.simps[of ws name path st]
  show ?case
  proof (cases "name \<in> visiting st")
    case True
    then have "e = CircularDependency (path @ [name])"
      using "1.prems"(1) eq by simp
    then show ?thesis
      using True "1.prems"(2-4) by (auto simp: cycle_report_def)
  next
    case False
    then have nv: "name \<notin> visited st"
      using "1.prems"(1) eq by (auto split: if_splits)
    let ?st1 = "st\<lparr>visiting := insert name (visiting st)\<rparr>"
    have r: "visit_deps ws name path (dependencies ws name) ?st1 = Inl e"
      using "1.prems"(1) eq False nv by (auto split: sum.splits)
    show ?thesis
      using "1.IH"[OF False nv r] "1.prems"(2-4) False by simp
  qed
next
  case (2 ws name path st)
  then show ?case by simp
next
  case (3 ws name path dep deps st)
  show ?case
  proof (cases "map_of ws dep = None")
    case True
    then have "e = NotDefined name dep" using "3.prems"(1) by simp
    then show ?thesis using True "3.prems"(5) by (auto simp: cycle_report_def)
  next
    case d: False
    have step: "successively (dep_step ws) ((path @ [name]) @ [dep])"
      using "3.prems"(4,5) by (simp add: successively_append_iff dep_step_def)
    show ?thesis
    proof (cases "visit ws dep (path @ [name]) st")
      case (Inl e')
      then have e: "e' = e" using "3.prems"(1) d by simp
      have "cycle_report ws ((path @ [name]) @ [dep]) e"
        using "3.IH"(1)[OF d Inl[unfolded e] "3.prems"(2,3) step] .
      then show ?thesis
        by (auto simp: cycle_report_def)
    next
      case (Inr st1)
      then have r2: "visit_deps ws name path deps st1 = Inl e"
        using "3.prems"(1) d by simp
      have "visiting st1 = visiting st" using visiting_preserved(1)[OF Inr] .
      then show ?thesis
        using "3.IH"(2)[OF d Inr r2] "3.prems"(2-5) by simp
    qed
  qed
qed

lemma visit_all_error:
  "visit_all ws names st = Inl e \<Longrightarrow> visiting st = {} \<Longrightarrow>
     \<exists>name \<in> set names. cycle_report ws [name] e"
proof (induction names arbitrary: st)
  case Nil
  then show ?case by simp
next
  case (Cons name names)
  show ?case
  proof (cases "visit ws name [] st")
    case (Inl e')
    then have "e' = e" using Cons.prems(1) by simp
    with Inl have "visit ws name [] st = Inl e" by simp
    from visit_error(1)[OF this] Cons.prems(2) show ?thesis by simp
  next
    case (Inr st1)
    then have r: "visit_all ws names st1 = Inl e" using Cons.prems(1) by simp
    have "visiting st1 = {}" using visiting_preserved(1)[OF Inr] Cons.prems(2) by simp
    from Cons.IH[OF r this] show ?thesis by auto
  qed
qed

lemma dependencies_in_entries:
  "d \<in> set (dependencies ws n) \<Longrightarrow> \<exists>w. (n, w) \<in> set ws \<and> d \<in> set (dependsOn_or_empty w)"
  by (cases "map_of ws n") (auto simp: dependencies_def dest: map_of_SomeD)

lemma deps_defined_map_of:
  "deps_defined ws \<Longrightarrow> d \<in> set (dependencies ws n) \<Longrightarrow> map_of ws d \<noteq> None"
proof -
  assume a: "deps_defined ws" and b: "d \<in> set (dependencies ws n)"
  from dependencies_in_entries[OF b] obtain w where "(n, w) \<in> set ws" "d \<in> set (dependsOn_or_empty w)"
    by blast
  with a have "d \<in> fst ` set ws"
    by (auto simp: deps_defined_def list_all_iff)
  then show ?thesis by (simp add: map_of_eq_None_iff)
qed

lemma deps_first_nth:
  assumes "deps_first ws order" "i < length order" "d \<in> set (dependencies ws (order ! i))"
  shows "\<exists>j<i. order ! j = d"
proof -
  from assms have "d \<in> set (take i order)" by (auto simp: deps_first_def)
  then obtain j where "j < length (take i order)" "take i order ! j = d"
    by (auto simp: in_set_conv_nth)
  then show ?thesis by auto
qed

lemma deps_first_acyclic:
  assumes df: "deps_first ws order" and dist: "distinct order" and keys: "set order = fst ` set ws"
  shows "acyclic (dep_rel ws)"
proof -
  define f where "f x = (THE i. i < length order \<and> order ! i = x)" for x
  have f: "f (order ! i) = i" if "i < length order" for i
    unfolding f_def using that dist by (auto simp: nth_eq_iff_index_eq)
  have "(dep_rel ws)\<inverse> \<subseteq> measure f"
  proof
    fix x assume "x \<in> (dep_rel ws)\<inverse>"
    then obtain d n where x: "x = (d, n)" and d: "d \<in> set (dependencies ws n)"
      by (auto simp: dep_rel_def)
    from dependencies_in_entries[OF d] keys have "n \<in> set order" by force
    then obtain i where i: "i < length order" "order ! i = n" by (auto simp: in_set_conv_nth)
    from deps_first_nth[OF df i(1)] d i(2) obtain j where j: "j < i" "order ! j = d" by auto
    have "f d < f n" using f[of i] f[of j] i j by simp
    then show "x \<in> measure f" using x by simp
  qed
  then have "wf ((dep_rel ws)\<inverse>)" by (rule wf_subset[OF wf_measure])
  then have "acyclic ((dep_rel ws)\<inverse>)" by (rule wf_acyclic)
  then show ?thesis by (simp only: acyclic_converse)
qed

section \<open>Resolution order (claims C1, C2, C6)\<close>

lemma resolve_apply: "action config = Apply \<Longrightarrow>
  resolveExecutionOrder config = topologicalSort (workspaces config) (map fst (workspaces config))"
  by (simp add: resolveExecutionOrder_def)

lemma resolve_destroy: "action config = Destroy \<Longrightarrow>
  resolveExecutionOrder config =
    (case topologicalSort (workspaces config) (map fst (workspaces config)) of
       Inl e \<Rightarrow> Inl e | Inr order \<Rightarrow> Inr (rev order))"
  by (simp add: resolveExecutionOrder_def)

lemma validate_ordered_resolves:
  assumes "validateDependencies config = Inr ()" "action config = Apply \<or> action config = Destroy"
  shows "\<exists>order. resolveExecutionOrder config = Inr order"
  using assms by (auto simp: validateDependencies_def split: sum.splits if_splits)

lemmas ex_simps = ex_stack_def ex_cycle_def ex_ghost_def ex_self_def ex_deps_def
  topologicalSort_def visit.simps dependencies_def dependsOn_or_empty_def
  resolveExecutionOrder_def validateDependencies_def

text \<open>A reported path closes a cycle of the dependency relation.\<close>

lemma successively_trancl:
  "successively (dep_step ws) (x # xs @ [y]) \<Longrightarrow> (x, y) \<in> (dep_rel ws)\<^sup>+"
proof (induction xs arbitrary: x)
  case Nil
  then show ?case by (auto simp: dep_step_def dep_rel_def)
next
  case (Cons a xs)
  then have "(x, a) \<in> dep_rel ws" and "successively (dep_step ws) (a # xs @ [y])"
    by (auto simp: dep_step_def dep_rel_def)
  with Cons.IH show ?case by (meson trancl_into_trancl2)
qed

lemma reported_path_is_cycle:
  assumes "successively (dep_step ws) p" "last p \<in> set (butlast p)"
  shows "\<not> acyclic (dep_rel ws)"
proof -
  from assms(2) have ne: "p \<noteq> []" by auto
  from assms(2) obtain pre mid where b: "butlast p = pre @ last p # mid"
    by (meson split_list)
  have "p = butlast p @ [last p]" using ne by simp
  then have p: "p = pre @ (last p # mid @ [last p])" using b by simp
  have "successively (dep_step ws) (last p # mid @ [last p])"
    using assms(1) by (subst (asm) p) (auto simp: successively_append_iff)
  from successively_trancl[OF this] show ?thesis by (auto simp: acyclic_def)
qed

lemma check_dependencies_accepts:
  "check_dependencies names name deps = Inr () \<longleftrightarrow> (\<forall>d\<in>set deps. d \<in> names \<and> d \<noteq> name)"
  by (induction deps) auto

lemma check_entries_accepts:
  "check_entries names entries = Inr () \<longleftrightarrow>
     (\<forall>(n, w)\<in>set entries. \<forall>d\<in>set (dependsOn_or_empty w). d \<in> names \<and> d \<noteq> n)"
proof (induction entries)
  case Nil
  then show ?case by simp
next
  case (Cons entry entries)
  obtain n w where e: "entry = (n, w)" by (cases entry)
  show ?case
  proof (cases "check_dependencies names n (dependsOn_or_empty w)")
    case (Inl err)
    then have "\<not> (\<forall>d\<in>set (dependsOn_or_empty w). d \<in> names \<and> d \<noteq> n)"
      using check_dependencies_accepts[of names n "dependsOn_or_empty w"] by simp
    with Inl e show ?thesis by auto
  next
    case (Inr u)
    then have "\<forall>d\<in>set (dependsOn_or_empty w). d \<in> names \<and> d \<noteq> n"
      using check_dependencies_accepts[of names n "dependsOn_or_empty w"] by simp
    with Inr e Cons.IH show ?thesis by auto
  qed
qed

text \<open>
  For apply and destroy, validation passes exactly when every declared dependency is
  defined and the dependency relation has no cycle (which excludes self-dependencies).
\<close>

lemma validation_passes_iff_acyclic:
  assumes keys: "distinct (map fst (workspaces config))"
    and act: "action config = Apply \<or> action config = Destroy"
  shows "validateDependencies config = Inr () \<longleftrightarrow>
           deps_defined (workspaces config) \<and> acyclic (dep_rel (workspaces config))"
proof
  let ?ws = "workspaces config"
  assume v: "validateDependencies config = Inr ()"
  then have c: "check_entries (set (map fst ?ws)) ?ws = Inr ()"
    by (auto simp: validateDependencies_def split: sum.splits)
  then have d: "deps_defined ?ws"
    unfolding check_entries_accepts deps_defined_def list_all_iff by auto
  from validate_ordered_resolves[OF v act] obtain r where "resolveExecutionOrder config = Inr r"
    by blast
  then obtain order where "topologicalSort ?ws (map fst ?ws) = Inr order"
    using act by (auto simp: resolve_apply resolve_destroy split: sum.splits)
  from topologicalSort_sound[OF this] have "acyclic (dep_rel ?ws)"
    by (intro deps_first_acyclic[of ?ws order]) simp_all
  with d show "deps_defined ?ws \<and> acyclic (dep_rel ?ws)" by simp
next
  let ?ws = "workspaces config"
  assume a: "deps_defined ?ws \<and> acyclic (dep_rel ?ws)"
  have self: "d \<noteq> n" if "(n, w) \<in> set ?ws" "d \<in> set (dependsOn_or_empty w)" for n w d
  proof
    assume "d = n"
    from that(1) keys have "map_of ?ws n = Some w" by simp
    with that(2) \<open>d = n\<close> have "(n, n) \<in> dep_rel ?ws"
      by (simp add: dep_rel_def dependencies_def)
    with a show False by (auto simp: acyclic_def)
  qed
  have c: "check_entries (set (map fst ?ws)) ?ws = Inr ()"
    unfolding check_entries_accepts using a self
    by (auto simp: deps_defined_def list_all_iff)
  have "\<exists>order. topologicalSort ?ws (map fst ?ws) = Inr order"
  proof (cases "topologicalSort ?ws (map fst ?ws)")
    case (Inl e)
    then have "visit_all ?ws (map fst ?ws) \<lparr>sorted = [], visited = {}, visiting = {}\<rparr> = Inl e"
      by (auto simp: topologicalSort_def split: sum.splits)
    from visit_all_error[OF this] obtain name where "cycle_report ?ws [name] e" by auto
    with deps_defined_map_of[of ?ws] a obtain p where
      "successively (dep_step ?ws) p" "last p \<in> set (butlast p)"
      unfolding cycle_report_def by blast
    from reported_path_is_cycle[OF this] a show ?thesis by simp
  qed simp
  then have "\<exists>order. resolveExecutionOrder config = Inr order"
    using act by (auto simp: resolve_apply resolve_destroy)
  with c act show "validateDependencies config = Inr ()"
    by (auto simp: validateDependencies_def)
qed

text \<open>
  Claim C1. For a configuration with action apply that passes \<^verbatim>\<open>validateDependencies\<close>
  (which, for apply, includes the trial resolution and so excludes cycles, as
  \<open>validation_passes_iff_acyclic\<close> shows),
  \<^verbatim>\<open>resolveExecutionOrder\<close> returns an order that is a permutation of the workspace names,
  each name once, in which every declared dependency of a workspace stands at a smaller
  index than the workspace.
\<close>

theorem resolveExecutionOrder_apply_topological:
  assumes keys: "distinct (map fst (workspaces config))"
    and act: "action config = Apply"
    and valid: "validateDependencies config = Inr ()"
  shows "\<exists>order. resolveExecutionOrder config = Inr order \<and>
           mset order = mset (map fst (workspaces config)) \<and>
           (\<forall>i<length order. \<forall>d\<in>set (dependencies (workspaces config) (order ! i)).
              \<exists>j<i. order ! j = d)"
proof -
  from validate_ordered_resolves[OF valid] act obtain order where
    r: "resolveExecutionOrder config = Inr order" by auto
  then have t: "topologicalSort (workspaces config) (map fst (workspaces config)) = Inr order"
    using act by (simp add: resolve_apply)
  from topologicalSort_sound[OF t] have d: "distinct order"
    and s: "set order = fst ` set (workspaces config)"
    and f: "deps_first (workspaces config) order" by simp_all
  have "set order = set (map fst (workspaces config))" using s by simp
  then have "mset order = mset (map fst (workspaces config))"
    using set_eq_iff_mset_eq_distinct[OF d keys] by blast
  moreover have "\<forall>i<length order. \<forall>d\<in>set (dependencies (workspaces config) (order ! i)).
              \<exists>j<i. order ! j = d"
    using deps_first_nth[OF f] by blast
  ultimately show ?thesis using r by blast
qed

theorem resolveExecutionOrder_apply_topological_witness:
  "distinct (map fst ex_stack) \<and>
   validateDependencies \<lparr>action = Apply, workspaces = ex_stack\<rparr> = Inr () \<and>
   (\<exists>order. resolveExecutionOrder \<lparr>action = Apply, workspaces = ex_stack\<rparr> = Inr order \<and>
      mset order = mset (map fst ex_stack) \<and>
      (\<forall>i<length order. \<forall>d\<in>set (dependencies ex_stack (order ! i)). \<exists>j<i. order ! j = d))"
proof -
  have k: "distinct (map fst (workspaces \<lparr>action = Apply, workspaces = ex_stack\<rparr>))"
    by (simp add: ex_stack_def)
  have a: "action \<lparr>action = Apply, workspaces = ex_stack\<rparr> = Apply" by simp
  have v: "validateDependencies \<lparr>action = Apply, workspaces = ex_stack\<rparr> = Inr ()"
    by (simp add: ex_simps)
  from resolveExecutionOrder_apply_topological[OF k a v] k v show ?thesis by simp
qed

text \<open>
  Claim C2. For a configuration with action destroy that passes validation,
  \<^verbatim>\<open>resolveExecutionOrder\<close> returns the reverse of what it returns for the same workspaces
  with action apply.
\<close>

theorem resolveExecutionOrder_destroy_reverse:
  assumes act: "action config = Destroy"
    and valid: "validateDependencies config = Inr ()"
  shows "\<exists>order. resolveExecutionOrder (config\<lparr>action := Apply\<rparr>) = Inr order \<and>
           resolveExecutionOrder config = Inr (rev order)"
proof -
  from validate_ordered_resolves[OF valid] act obtain r where
    r: "resolveExecutionOrder config = Inr r" by auto
  then obtain order where
    t: "topologicalSort (workspaces config) (map fst (workspaces config)) = Inr order"
    and "r = rev order"
    using act by (auto simp: resolve_destroy split: sum.splits)
  then show ?thesis using r by (simp add: resolve_apply)
qed

theorem resolveExecutionOrder_destroy_reverse_witness:
  "validateDependencies \<lparr>action = Destroy, workspaces = ex_stack\<rparr> = Inr () \<and>
   resolveExecutionOrder \<lparr>action = Apply, workspaces = ex_stack\<rparr>
     = Inr [''network'', ''database'', ''app''] \<and>
   resolveExecutionOrder \<lparr>action = Destroy, workspaces = ex_stack\<rparr>
     = Inr [''app'', ''database'', ''network'']"
proof -
  have a: "action \<lparr>action = Destroy, workspaces = ex_stack\<rparr> = Destroy" by simp
  have v: "validateDependencies \<lparr>action = Destroy, workspaces = ex_stack\<rparr> = Inr ()"
    by (simp add: ex_simps)
  have f: "resolveExecutionOrder \<lparr>action = Apply, workspaces = ex_stack\<rparr>
     = Inr [''network'', ''database'', ''app'']"
    by (simp add: ex_simps)
  from resolveExecutionOrder_destroy_reverse[OF a v] f v show ?thesis by auto
qed

text \<open>
  Nothing that is already sorted reaches a cycle, so the dependencies the traversal has
  finished before it fails are exactly those from which no cycle can be reached.
\<close>

lemma deps_first_step:
  assumes "deps_first ws xs" "i < length xs" "(xs ! i, y) \<in> dep_rel ws"
  shows "\<exists>j<i. xs ! j = y"
  using deps_first_nth[OF assms(1,2)] assms(3) by (simp add: dep_rel_def)

lemma deps_first_trancl:
  assumes "deps_first ws xs" "(x, y) \<in> (dep_rel ws)\<^sup>+"
  shows "\<forall>i<length xs. xs ! i = x \<longrightarrow> (\<exists>j<i. xs ! j = y)"
  using assms(2)
proof (induction rule: trancl_induct)
  case (base y)
  then show ?case using deps_first_step[OF assms(1)] by blast
next
  case (step y z)
  show ?case
  proof (intro allI impI)
    fix i assume i: "i < length xs" "xs ! i = x"
    with step.IH obtain j where j: "j < i" "xs ! j = y" by blast
    with i have "j < length xs" by simp
    from deps_first_step[OF assms(1) this] j step.hyps(2) obtain k where "k < j" "xs ! k = z"
      by blast
    with j have "k < i" "xs ! k = z" by simp_all
    then show "\<exists>j<i. xs ! j = z" by blast
  qed
qed

lemma deps_first_no_cycle:
  assumes df: "deps_first ws xs" and d: "distinct xs" and n: "n \<in> set xs"
  shows "\<not> reaches_cycle ws n"
proof
  assume "reaches_cycle ws n"
  then obtain c where nc: "(n, c) \<in> (dep_rel ws)\<^sup>*" and cc: "(c, c) \<in> (dep_rel ws)\<^sup>+"
    by (auto simp: reaches_cycle_def)
  have "c \<in> set xs"
  proof (cases "n = c")
    case True
    with n show ?thesis by simp
  next
    case False
    with nc have "(n, c) \<in> (dep_rel ws)\<^sup>+" by (simp add: rtrancl_eq_or_trancl)
    from deps_first_trancl[OF df this] n show ?thesis
      by (metis in_set_conv_nth less_trans)
  qed
  then obtain k where k: "k < length xs" "xs ! k = c" by (auto simp: in_set_conv_nth)
  from deps_first_trancl[OF df cc] k obtain j where j: "j < k" "xs ! j = c" by blast
  with k have "j < length xs" "k < length xs" "xs ! j = xs ! k" "j \<noteq> k" by simp_all
  with d show False by (simp add: nth_eq_iff_index_eq)
qed

lemma visited_no_cycle:
  "sort_inv ws st \<Longrightarrow> n \<in> visited st \<Longrightarrow> \<not> reaches_cycle ws n"
  using deps_first_no_cycle[of ws "sorted st" n] by (simp add: sort_inv_def)

lemma visit_error_first:
  "visit ws name path st = Inl (CircularDependency p) \<Longrightarrow> sort_inv ws st \<Longrightarrow>
     map_of ws name \<noteq> None \<Longrightarrow>
     \<exists>q. p = path @ name # q \<and>
         successively (\<lambda>x y. \<exists>before after. dependencies ws x = before @ y # after \<and>
                         (\<forall>d\<in>set before. \<not> reaches_cycle ws d)) (name # q)"
  "visit_deps ws name path deps st = Inl (CircularDependency p) \<Longrightarrow> sort_inv ws st \<Longrightarrow>
     dependencies ws name = processed @ deps \<Longrightarrow> set processed \<subseteq> visited st \<Longrightarrow>
     \<exists>q. p = path @ name # q \<and>
         successively (\<lambda>x y. \<exists>before after. dependencies ws x = before @ y # after \<and>
                         (\<forall>d\<in>set before. \<not> reaches_cycle ws d)) (name # q)"
proof (induction ws name path st and ws name path deps st arbitrary: p and p processed
       rule: visit_visit_deps.induct)
  case (1 ws name path st)
  note eq = visit.simps[of ws name path st]
  show ?case
  proof (cases "name \<in> visiting st")
    case True
    then have "p = path @ [name]" using "1.prems"(1) eq by simp
    then show ?thesis by simp
  next
    case False
    then have nv: "name \<notin> visited st"
      using "1.prems"(1) eq by (auto split: if_splits)
    let ?st1 = "st\<lparr>visiting := insert name (visiting st)\<rparr>"
    have r: "visit_deps ws name path (dependencies ws name) ?st1 = Inl (CircularDependency p)"
      using "1.prems"(1) eq False nv by (auto split: sum.splits)
    have inv1: "sort_inv ws ?st1"
      using "1.prems"(2) nv by (auto simp: sort_inv_def)
    show ?thesis
      using "1.IH"[OF False nv r inv1, of "[]"] by simp
  qed
next
  case (2 ws name path st)
  then show ?case by simp
next
  case (3 ws name path dep deps st)
  have d: "map_of ws dep \<noteq> None"
    using "3.prems"(1) by (auto split: if_splits)
  have step: "\<exists>before after. dependencies ws name = before @ dep # after \<and>
                         (\<forall>d\<in>set before. \<not> reaches_cycle ws d)"
    using "3.prems"(2,3,4) visited_no_cycle[of ws st] by blast
  show ?case
  proof (cases "visit ws dep (path @ [name]) st")
    case (Inl e)
    then have e: "e = CircularDependency p" using "3.prems"(1) d by simp
    from "3.IH"(1)[OF d Inl[unfolded e] "3.prems"(2) d] obtain q where
      p: "p = (path @ [name]) @ dep # q"
      and s: "successively (\<lambda>x y. \<exists>before after. dependencies ws x = before @ y # after \<and>
                         (\<forall>d\<in>set before. \<not> reaches_cycle ws d)) (dep # q)"
      by blast
    from p s step show ?thesis by (intro exI[of _ "dep # q"]) simp
  next
    case (Inr st1)
    then have r2: "visit_deps ws name path deps st1 = Inl (CircularDependency p)"
      using "3.prems"(1) d by simp
    from visit_sound(1)[OF Inr "3.prems"(2) d]
    have inv1: "sort_inv ws st1" and m: "visited st \<subseteq> visited st1" and v: "dep \<in> visited st1"
      by simp_all
    have "dependencies ws name = (processed @ [dep]) @ deps" using "3.prems"(3) by simp
    moreover have "set (processed @ [dep]) \<subseteq> visited st1" using "3.prems"(4) m v by auto
    ultimately show ?thesis using "3.IH"(2)[OF d Inr r2 inv1] by blast
  qed
qed

lemma visit_all_first_failure:
  "visit_all ws names st = Inl e \<Longrightarrow>
   \<exists>done r rest st1. names = done @ r # rest \<and> visit_all ws done st = Inr st1 \<and>
      visit ws r [] st1 = Inl e"
proof (induction names arbitrary: st)
  case Nil
  then show ?case by simp
next
  case (Cons name names)
  show ?case
  proof (cases "visit ws name [] st")
    case (Inl e')
    then have "visit ws name [] st = Inl e" using Cons.prems by simp
    then show ?thesis by (intro exI[of _ "[]"] exI[of _ name] exI[of _ names] exI[of _ st]) simp
  next
    case (Inr st')
    then have "visit_all ws names st' = Inl e" using Cons.prems by simp
    from Cons.IH[OF this] obtain dn r rest st1 where
      "names = dn @ r # rest" "visit_all ws dn st' = Inr st1" "visit ws r [] st1 = Inl e"
      by blast
    with Inr show ?thesis
      by (intro exI[of _ "name # dn"] exI[of _ r] exI[of _ rest] exI[of _ st1]) simp
  qed
qed

lemma path_rtrancl:
  assumes "successively (dep_step ws) p"
  shows "i \<le> j \<Longrightarrow> j < length p \<Longrightarrow> (p ! i, p ! j) \<in> (dep_rel ws)\<^sup>*"
proof (induction j)
  case 0
  then show ?case by simp
next
  case (Suc j)
  show ?case
  proof (cases "i = Suc j")
    case True
    then show ?thesis by simp
  next
    case False
    with Suc.prems have "i \<le> j" "j < length p" by simp_all
    from Suc.IH[OF this] have "(p ! i, p ! j) \<in> (dep_rel ws)\<^sup>*" .
    moreover have "(p ! j, p ! Suc j) \<in> dep_rel ws"
      using successively_nth[OF assms, of j] Suc.prems(2) by (simp add: dep_step_def dep_rel_def)
    ultimately show ?thesis by (rule rtrancl_into_rtrancl)
  qed
qed

lemma reported_path_reaches_cycle:
  assumes s: "successively (dep_step ws) p" and l: "last p \<in> set (butlast p)"
    and n: "n \<in> set p"
  shows "reaches_cycle ws n"
proof -
  from l have ne: "p \<noteq> []" by auto
  then have last: "last p = p ! (length p - 1)" by (simp add: last_conv_nth)
  from l obtain k where k: "k < length (butlast p)" "butlast p ! k = last p"
    by (auto simp: in_set_conv_nth)
  then have k': "k < length p - 1" "p ! k = last p" by (simp_all add: nth_butlast)
  have "(p ! k, p ! Suc k) \<in> dep_rel ws"
    using successively_nth[OF s, of k] k'(1) by (simp add: dep_step_def dep_rel_def)
  moreover have "(p ! Suc k, p ! (length p - 1)) \<in> (dep_rel ws)\<^sup>*"
    using path_rtrancl[OF s, of "Suc k" "length p - 1"] k'(1) by simp
  ultimately have cyc: "(last p, last p) \<in> (dep_rel ws)\<^sup>+"
    using k'(2) last by (metis rtrancl_into_trancl2)
  from n obtain i where i: "i < length p" "p ! i = n" by (auto simp: in_set_conv_nth)
  have "(p ! i, p ! (length p - 1)) \<in> (dep_rel ws)\<^sup>*"
    using path_rtrancl[OF s, of i "length p - 1"] i(1) by simp
  with i last cyc show ?thesis by (auto simp: reaches_cycle_def)
qed

text \<open>
  The traversal path is determined by the configuration: two paths that both satisfy
  \<open>traversal_path\<close> are equal.
\<close>

lemma first_split_unique:
  assumes "xs = b @ y # a" "xs = b' @ y' # a'"
    and "\<forall>d\<in>set b. \<not> P d" "P y" "\<forall>d\<in>set b'. \<not> P d" "P y'"
  shows "b = b' \<and> y = y'"
proof -
  have 1: "takeWhile (\<lambda>d. \<not> P d) (b @ y # a) = b"
    using assms(3,4) by (simp add: takeWhile_append2)
  have 2: "takeWhile (\<lambda>d. \<not> P d) (b' @ y' # a') = b'"
    using assms(5,6) by (simp add: takeWhile_append2)
  have eq: "b @ y # a = b' @ y' # a'" using assms(1,2) by simp
  have "b = b'" using 1 2 unfolding eq by simp
  with eq show ?thesis by simp
qed

lemma first_cyclic_dep_unique:
  assumes "first_cyclic_dep ws x y" "first_cyclic_dep ws x y'"
  shows "y = y'"
proof -
  from assms obtain b a b' a' where
    "dependencies ws x = b @ y # a" "\<forall>d\<in>set b. \<not> reaches_cycle ws d" "reaches_cycle ws y"
    "dependencies ws x = b' @ y' # a'" "\<forall>d\<in>set b'. \<not> reaches_cycle ws d" "reaches_cycle ws y'"
    unfolding first_cyclic_dep_def by blast
  from first_split_unique[OF this(1,4,2,3,5,6)] show ?thesis by simp
qed

lemma following_take:
  "successively (first_cyclic_dep ws) (x # q) \<Longrightarrow> successively (first_cyclic_dep ws) (x # q') \<Longrightarrow>
   length q \<le> length q' \<Longrightarrow> take (length q) q' = q"
proof (induction q arbitrary: x q')
  case Nil
  then show ?case by simp
next
  case (Cons y q)
  then obtain y' r where q': "q' = y' # r" by (cases q') auto
  from Cons.prems(1) have 1: "first_cyclic_dep ws x y" "successively (first_cyclic_dep ws) (y # q)"
    by simp_all
  from Cons.prems(2) have 2: "first_cyclic_dep ws x y'" "successively (first_cyclic_dep ws) (y' # r)"
    unfolding q' by simp_all
  from 1(1) 2(1) have y: "y' = y" by (rule first_cyclic_dep_unique[symmetric])
  from Cons.prems(3) have "length q \<le> length r" unfolding q' by simp
  from Cons.IH[OF 1(2) 2(2)[unfolded y] this] show ?case unfolding q' y by simp
qed

lemma last_notin_butlast:
  "distinct xs \<Longrightarrow> xs \<noteq> [] \<Longrightarrow> last xs \<notin> set (butlast xs)"
  by (induction xs) auto

lemma traversal_path_longer:
  assumes p: "traversal_path ws p" and p': "traversal_path ws p'"
    and le: "length p \<le> length p'"
  shows "p = p'"
proof -
  from p have ne: "p \<noteq> []" by (auto simp: traversal_path_def)
  from p' have ne': "p' \<noteq> []" by (auto simp: traversal_path_def)
  from ne ne' obtain h q h' q' where pq: "p = h # q" "p' = h' # q'"
    by (metis list.exhaust)
  from p p' obtain dn rest dn' rest' where
    "map fst ws = dn @ h # rest" "\<forall>k\<in>set dn. \<not> reaches_cycle ws k" "reaches_cycle ws h"
    "map fst ws = dn' @ h' # rest'" "\<forall>k\<in>set dn'. \<not> reaches_cycle ws k" "reaches_cycle ws h'"
    unfolding traversal_path_def pq by auto
  from first_split_unique[OF this(1,4,2,3,5,6)] have h: "h' = h" by simp
  have s: "successively (first_cyclic_dep ws) (h # q)"
    using p unfolding pq traversal_path_def by simp
  have s': "successively (first_cyclic_dep ws) (h # q')"
    using p' unfolding pq h traversal_path_def by simp
  from le have "length q \<le> length q'" unfolding pq by simp
  from following_take[OF s s' this] have t: "take (length p) p' = p"
    unfolding pq h by simp
  show ?thesis
  proof (cases "length p = length p'")
    case True
    with t show ?thesis by simp
  next
    case False
    with le have lt: "length p < length p'" by simp
    from p' have "distinct (butlast p')" by (simp add: traversal_path_def)
    then have "distinct (take (length p) (butlast p'))" by (rule distinct_take)
    then have "distinct p" using lt t by (simp add: take_butlast)
    from last_notin_butlast[OF this ne] p show ?thesis by (simp add: traversal_path_def)
  qed
qed

lemma traversal_path_unique:
  assumes "traversal_path ws p" "traversal_path ws p'"
  shows "p = p'"
proof (cases "length p \<le> length p'")
  case True
  from traversal_path_longer[OF assms True] show ?thesis .
next
  case False
  then have "length p' \<le> length p" by simp
  from traversal_path_longer[OF assms(2,1) this] show ?thesis by simp
qed

text \<open>
  Claim C6, amended. When every declared dependency is defined and the dependency relation
  has a cycle, resolution for apply or destroy throws the circular-dependency error, and
  the reported path is the whole traversal path: it starts at the first workspace, in key
  order, from which a cycle can be reached; each further entry is the first declared
  dependency of the entry before it from which a cycle can be reached; it has no
  repetition before its last entry, and its last entry occurs earlier in it. The path
  starts at the repeated node only when that first workspace lies on the cycle itself.
\<close>

theorem cycle_reported_from_root:
  assumes defined: "deps_defined (workspaces config)"
    and cyclic: "\<not> acyclic (dep_rel (workspaces config))"
    and act: "action config = Apply \<or> action config = Destroy"
  shows "\<exists>p. resolveExecutionOrder config = Inl (CircularDependency p) \<and>
           traversal_path (workspaces config) p"
proof -
  let ?ws = "workspaces config"
  let ?init = "\<lparr>sorted = [], visited = {}, visiting = {}\<rparr>"
  let ?R = "\<lambda>x y. \<exists>before after. dependencies ?ws x = before @ y # after \<and>
                         (\<forall>d\<in>set before. \<not> reaches_cycle ?ws d)"
  have init: "sort_inv ?ws ?init" by (simp add: sort_inv_def deps_first_def)
  show ?thesis
  proof (cases "topologicalSort ?ws (map fst ?ws)")
    case (Inr order)
    from topologicalSort_sound[OF Inr] have "acyclic (dep_rel ?ws)"
      by (intro deps_first_acyclic[of ?ws order]) simp_all
    with cyclic show ?thesis by simp
  next
    case (Inl e)
    then have all: "visit_all ?ws (map fst ?ws) ?init = Inl e"
      by (auto simp: topologicalSort_def split: sum.splits)
    from visit_all_error[OF all] obtain name where "cycle_report ?ws [name] e" by auto
    with deps_defined_map_of[OF defined] obtain p where
      e: "e = CircularDependency p" and dist: "distinct (butlast p)"
      and rep: "last p \<in> set (butlast p)"
      unfolding cycle_report_def by blast
    from visit_all_first_failure[OF all] obtain dn r rest st1 where
      names: "map fst ?ws = dn @ r # rest" and ok: "visit_all ?ws dn ?init = Inr st1"
      and bad: "visit ?ws r [] st1 = Inl e" by blast
    have sub: "set dn \<subseteq> fst ` set ?ws" and r: "r \<in> fst ` set ?ws"
      using names by (metis set_map set_append Un_upper1 subsetI, metis in_set_conv_decomp set_map)
    from visit_all_sound[OF ok init sub] have inv1: "sort_inv ?ws st1"
      and dn: "set dn \<subseteq> visited st1" by simp_all
    have clean: "\<forall>k\<in>set dn. \<not> reaches_cycle ?ws k"
      using visited_no_cycle[OF inv1] dn by blast
    have "map_of ?ws r \<noteq> None" using r by (simp add: map_of_eq_None_iff)
    from visit_error_first(1)[OF bad[unfolded e] inv1 this] obtain q where
      p: "p = r # q" and s: "successively ?R p" by auto
    have step: "successively (dep_step ?ws) p"
      by (rule successively_mono[OF s]) (auto simp: dep_step_def)
    have reach: "\<forall>n\<in>set p. reaches_cycle ?ws n"
      using reported_path_reaches_cycle[OF step rep] by blast
    have "successively (first_cyclic_dep ?ws) p"
      unfolding successively_conv_nth first_cyclic_dep_def
      using successively_nth[OF s] reach by (metis Suc_lessD nth_mem)
    moreover have "resolveExecutionOrder config = Inl e"
      using act Inl by (auto simp: resolve_apply resolve_destroy)
    moreover have "hd p = r" using p by simp
    ultimately show ?thesis using e names clean reach dist rep p
      unfolding traversal_path_def by (intro exI[of _ p]) auto
  qed
qed

theorem cycle_path_counterexample:
  "\<not> acyclic (dep_rel ex_cycle) \<and>
   resolveExecutionOrder \<lparr>action = Apply, workspaces = ex_cycle\<rparr>
     = Inl (CircularDependency [''x'', ''a'', ''b'', ''a'']) \<and>
   hd [''x'', ''a'', ''b'', ''a''] \<noteq> last [''x'', ''a'', ''b'', ''a''] \<and>
   \<not> acyclic (dep_rel ex_ghost) \<and>
   resolveExecutionOrder \<lparr>action = Apply, workspaces = ex_ghost\<rparr> = Inl (NotDefined ''a'' ''ghost'')"
proof -
  have "(''a'', ''b'') \<in> dep_rel ex_cycle" "(''b'', ''a'') \<in> dep_rel ex_cycle"
    by (simp_all add: dep_rel_def ex_simps)
  then have "(''a'', ''a'') \<in> (dep_rel ex_cycle)\<^sup>+" by (rule trancl_into_trancl2[OF _ r_into_trancl])
  then have c1: "\<not> acyclic (dep_rel ex_cycle)" by (auto simp: acyclic_def)
  have "(''a'', ''b'') \<in> dep_rel ex_ghost" "(''b'', ''a'') \<in> dep_rel ex_ghost"
    by (simp_all add: dep_rel_def ex_simps)
  then have "(''a'', ''a'') \<in> (dep_rel ex_ghost)\<^sup>+" by (rule trancl_into_trancl2[OF _ r_into_trancl])
  then have c2: "\<not> acyclic (dep_rel ex_ghost)" by (auto simp: acyclic_def)
  have r1: "resolveExecutionOrder \<lparr>action = Apply, workspaces = ex_cycle\<rparr>
     = Inl (CircularDependency [''x'', ''a'', ''b'', ''a''])"
    by (simp add: ex_simps)
  have r2: "resolveExecutionOrder \<lparr>action = Apply, workspaces = ex_ghost\<rparr>
     = Inl (NotDefined ''a'' ''ghost'')"
    by (simp add: ex_simps)
  from c1 c2 r1 r2 show ?thesis by simp
qed

theorem cycle_reported_from_root_witness:
  "deps_defined ex_cycle \<and> \<not> acyclic (dep_rel ex_cycle) \<and>
   resolveExecutionOrder \<lparr>action = Destroy, workspaces = ex_cycle\<rparr>
     = Inl (CircularDependency [''x'', ''a'', ''b'', ''a'']) \<and>
   traversal_path ex_cycle [''x'', ''a'', ''b'', ''a''] \<and>
   \<not> traversal_path ex_cycle [''a'', ''b'', ''a'']"
proof -
  have d: "deps_defined (workspaces \<lparr>action = Destroy, workspaces = ex_cycle\<rparr>)"
    by (simp add: deps_defined_def ex_simps)
  have "(''a'', ''b'') \<in> dep_rel ex_cycle" "(''b'', ''a'') \<in> dep_rel ex_cycle"
    by (simp_all add: dep_rel_def ex_simps)
  then have "(''a'', ''a'') \<in> (dep_rel ex_cycle)\<^sup>+" by (rule trancl_into_trancl2[OF _ r_into_trancl])
  then have "\<not> acyclic (dep_rel ex_cycle)" by (auto simp: acyclic_def)
  then have c: "\<not> acyclic (dep_rel (workspaces \<lparr>action = Destroy, workspaces = ex_cycle\<rparr>))"
    by simp
  have a: "action \<lparr>action = Destroy, workspaces = ex_cycle\<rparr> = Apply \<or>
           action \<lparr>action = Destroy, workspaces = ex_cycle\<rparr> = Destroy" by simp
  have r: "resolveExecutionOrder \<lparr>action = Destroy, workspaces = ex_cycle\<rparr>
     = Inl (CircularDependency [''x'', ''a'', ''b'', ''a''])"
    by (simp add: ex_simps)
  from cycle_reported_from_root[OF d c a] r
  have t: "traversal_path ex_cycle [''x'', ''a'', ''b'', ''a'']" by simp
  from traversal_path_unique[OF t] have "\<not> traversal_path ex_cycle [''a'', ''b'', ''a'']" by blast
  with d c r t show ?thesis by simp
qed

section \<open>Validation (claim C5)\<close>

lemma check_dependencies_rejects:
  "dep \<in> set deps \<Longrightarrow> dep = name \<or> dep \<notin> names \<Longrightarrow>
   \<exists>d. check_dependencies names name deps = Inl (CannotDependOnItself name) \<or>
       check_dependencies names name deps = Inl (NotDefinedInConfiguration name d)"
  by (induction deps) auto

lemma check_dependencies_error:
  "check_dependencies names name deps = Inl e \<Longrightarrow>
   (\<exists>d. e = NotDefinedInConfiguration name d) \<or> e = CannotDependOnItself name"
  by (induction deps) (auto split: if_splits)

lemma check_entries_rejects:
  "(name, wcfg) \<in> set entries \<Longrightarrow> dep \<in> set (dependsOn_or_empty wcfg) \<Longrightarrow>
   dep = name \<or> dep \<notin> names \<Longrightarrow>
   \<exists>n d. check_entries names entries = Inl (CannotDependOnItself n) \<or>
         check_entries names entries = Inl (NotDefinedInConfiguration n d)"
proof (induction entries)
  case Nil
  then show ?case by simp
next
  case (Cons entry entries)
  obtain n w where entry: "entry = (n, w)" by (cases entry)
  show ?case
  proof (cases "check_dependencies names n (dependsOn_or_empty w)")
    case (Inl e)
    have "(\<exists>d. e = NotDefinedInConfiguration n d) \<or> e = CannotDependOnItself n"
      using check_dependencies_error[OF Inl] .
    then show ?thesis using Inl entry by auto
  next
    case (Inr u)
    then have "check_entries names (entry # entries) = check_entries names entries"
      using entry by simp
    moreover have "(name, wcfg) \<in> set entries"
    proof (rule ccontr)
      assume "(name, wcfg) \<notin> set entries"
      then have "n = name" "w = wcfg" using Cons.prems(1) entry by auto
      with check_dependencies_rejects[OF Cons.prems(2,3)] Inr show False by auto
    qed
    ultimately show ?thesis using Cons.IH Cons.prems(2,3) by simp
  qed
qed

text \<open>
  Claim C5. Whatever the action, if some workspace lists itself in its \<^verbatim>\<open>dependsOn\<close>, or lists
  a name that is not a workspace of the configuration, then \<^verbatim>\<open>validateDependencies\<close> throws
  a self-dependency or an unknown-dependency error, and \<^verbatim>\<open>execute\<close> rejects with that error
  in an unchanged world: no backend call has been made and nothing has been logged.
\<close>

theorem validation_rejects_before_backend:
  assumes entry: "(name, wcfg) \<in> set (workspaces config)"
    and dep: "dep \<in> set (dependsOn_or_empty wcfg)"
    and bad: "dep = name \<or> dep \<notin> fst ` set (workspaces config)"
  shows "\<exists>n d. (validateDependencies config = Inl (CannotDependOnItself n) \<and>
                execute be organization config w = (Inl (CannotDependOnItself n), w)) \<or>
               (validateDependencies config = Inl (NotDefinedInConfiguration n d) \<and>
                execute be organization config w = (Inl (NotDefinedInConfiguration n d), w))"
proof -
  from bad have "dep = name \<or> dep \<notin> set (map fst (workspaces config))" by simp
  from check_entries_rejects[OF entry dep this] obtain n d where
    "check_entries (set (map fst (workspaces config))) (workspaces config)
       = Inl (CannotDependOnItself n) \<or>
     check_entries (set (map fst (workspaces config))) (workspaces config)
       = Inl (NotDefinedInConfiguration n d)"
    by blast
  then have "(validateDependencies config = Inl (CannotDependOnItself n) \<and>
                execute be organization config w = (Inl (CannotDependOnItself n), w)) \<or>
               (validateDependencies config = Inl (NotDefinedInConfiguration n d) \<and>
                execute be organization config w = (Inl (NotDefinedInConfiguration n d), w))"
    by (auto simp: validateDependencies_def execute_def)
  then show ?thesis by blast
qed

theorem validation_rejects_before_backend_witness:
  "(''app'', ex_deps [''network'', ''app'']) \<in> set ex_self \<and>
   ''app'' \<in> set (dependsOn_or_empty (ex_deps [''network'', ''app''])) \<and>
   validateDependencies \<lparr>action = Create, workspaces = ex_self\<rparr> = Inl (CannotDependOnItself ''app'') \<and>
   execute (ex_backend {} (\<lambda>n. applied)) ''org'' \<lparr>action = Create, workspaces = ex_self\<rparr> ex_world
     = (Inl (CannotDependOnItself ''app''), ex_world)"
proof -
  have e: "(''app'', ex_deps [''network'', ''app''])
             \<in> set (workspaces \<lparr>action = Create, workspaces = ex_self\<rparr>)"
    by (simp add: ex_self_def)
  have d: "''app'' \<in> set (dependsOn_or_empty (ex_deps [''network'', ''app'']))"
    by (simp add: dependsOn_or_empty_def ex_deps_def)
  have b: "''app'' = ''app'' \<or> ''app'' \<notin> fst ` set (workspaces \<lparr>action = Create, workspaces = ex_self\<rparr>)"
    by simp
  have v: "validateDependencies \<lparr>action = Create, workspaces = ex_self\<rparr>
             = Inl (CannotDependOnItself ''app'')"
    by (simp add: ex_simps)
  from validation_rejects_before_backend[OF e d b,
      of "ex_backend {} (\<lambda>n. applied)" "''org''" ex_world] v e d
  show ?thesis by (auto simp: ex_self_def)
qed

section \<open>Traces\<close>

lemma extends_iff: "extends w w' \<longleftrightarrow> trace w' = trace w @ new_events w w'"
  unfolding extends_def new_events_def
  by (metis append_take_drop_id append_eq_conv_conj)

lemma extends_refl: "extends w w"
  by (simp add: extends_def)

lemma extends_trans: "extends w w1 \<Longrightarrow> extends w1 w2 \<Longrightarrow> extends w w2"
  unfolding extends_iff by (metis append.assoc extends_def extends_iff append_eq_conv_conj)

lemma extends_perform: "extends w (perform be ev w)"
  by (simp add: extends_def perform_def)

lemma new_events_trans:
  "extends w w1 \<Longrightarrow> extends w1 w2 \<Longrightarrow> new_events w w2 = new_events w w1 @ new_events w1 w2"
  unfolding extends_iff by (metis append.assoc append_eq_conv_conj new_events_def)

lemma new_events_perform: "new_events w (perform be ev w) = [ev]"
  by (simp add: new_events_def perform_def)

lemma poll_once_extends: "poll_once be runId w = (r, w') \<Longrightarrow> extends w w'"
  by (auto simp: poll_once_def Let_def
        intro: extends_perform extends_trans[OF extends_perform extends_perform]
        split: sum.splits thrown.splits if_splits option.splits)

lemma waitForRun_loop_extends:
  "waitForRun_loop be runId timeout startTime w = (r, w') \<Longrightarrow> extends w w'"
proof (induction be runId timeout startTime w rule: waitForRun_loop.induct)
  case (1 be runId timeout startTime w)
  show ?case
  proof (cases "now w - startTime > timeout")
    case True
    with "1.prems" show ?thesis by (simp add: waitForRun_loop.simps extends_refl)
  next
    case False
    obtain o1 w1 where p: "poll_once be runId w = (o1, w1)" by force
    show ?thesis
    proof (cases o1)
      case None
      with "1.prems" False p have "waitForRun_loop be runId timeout startTime w1 = (r, w')"
        by (simp add: waitForRun_loop.simps[of be runId timeout startTime w])
      from "1.IH"[OF False p[symmetric] _ this] None
      have "extends w1 w'" by simp
      with poll_once_extends[OF p] show ?thesis by (rule extends_trans)
    next
      case (Some outcome)
      with "1.prems" False p have "w' = w1"
        by (simp add: waitForRun_loop.simps[of be runId timeout startTime w])
      with poll_once_extends[OF p] show ?thesis by simp
    qed
  qed
qed

lemma run_try_extends:
  assumes "run_try be org name message isDestroy w = (r, w')"
  shows "extends (perform be (GetWorkspaceCall org name) w) w'"
proof -
  let ?w1 = "perform be (GetWorkspaceCall org name) w"
  show ?thesis
  proof (cases "getWorkspace be w org name")
    case (Inl t)
    with assms show ?thesis by (simp add: run_try_def Let_def extends_refl)
  next
    case (Inr response)
    let ?w2 = "perform be (CreateRunCall (data_id response) message isDestroy True) ?w1"
    show ?thesis
    proof (cases "createRun be ?w1 (data_id response) message isDestroy True")
      case (Inl t)
      with assms Inr show ?thesis by (auto simp: run_try_def Let_def extends_perform)
    next
      case run: (Inr run)
      obtain o3 w3 where wt: "waitForRun be (run_data_id run) None ?w2 = (o3, w3)" by force
      then have "extends ?w2 w3"
        by (auto simp: waitForRun_def intro: waitForRun_loop_extends)
      then have "extends ?w1 w3" using extends_perform extends_trans by blast
      moreover have "w' = w3" using assms Inr run wt
        by (auto simp: run_try_def Let_def split: sum.splits)
      ultimately show ?thesis by simp
    qed
  qed
qed

section \<open>Pending attempts and Promise.all\<close>

lemmas task_step_defs = create_caught_def create_returned_def attach_or_later_def
  variables_or_return_def createSingleWorkspace_def deleteSingleWorkspace_def

lemma resume_extends: "extends w (snd (resume be t w))"
  by (cases t)
     (auto simp: task_step_defs extends_refl extends_perform split: sum.splits option.splits)

lemma resume_workspace: "task_workspace (fst (resume be t w)) = task_workspace t"
  by (cases t)
     (auto simp: task_step_defs failure_result_def split: sum.splits option.splits)

lemma resume_ok: "task_ok t \<Longrightarrow> task_ok (fst (resume be t w))"
  by (cases t)
     (auto simp: task_step_defs failure_result_def result_ok_def split: sum.splits option.splits)

lemma resumed_workspace: "task_workspace (resumed be t ws) = task_workspace t"
  by (induction ws arbitrary: t) (simp_all add: resume_workspace)

lemma resumed_ok: "task_ok t \<Longrightarrow> task_ok (resumed be t ws)"
  by (induction ws arbitrary: t) (simp_all add: resume_ok)

lemma createSingle_start:
  "extends w (snd (createSingleWorkspace be org name c w))"
  "task_workspace (fst (createSingleWorkspace be org name c w)) = name"
  "task_ok (fst (createSingleWorkspace be org name c w))"
  by (auto simp: task_step_defs failure_result_def result_ok_def extends_perform
        split: option.splits)

lemma deleteSingle_start:
  "extends w (snd (deleteSingleWorkspace be org name w))"
  "task_workspace (fst (deleteSingleWorkspace be org name w)) = name"
  "task_ok (fst (deleteSingleWorkspace be org name w))"
  by (auto simp: task_step_defs extends_perform)

lemma chain_head:
  "extends a b \<Longrightarrow> successively extends (b # xs) \<Longrightarrow> successively extends (a # xs)"
  by (cases xs) (auto intro: extends_trans)

lemma next_pending_None:
  "next_pending be tasks w = None \<Longrightarrow> \<forall>t\<in>set tasks. is_settled t"
proof -
  assume "next_pending be tasks w = None"
  then have "pending_from 0 tasks = []"
    by (auto simp: next_pending_def split: list.splits)
  then have "{0 + k | k. k < length tasks \<and> \<not> is_settled (tasks ! k)} = {}"
    using pending_from_set[of 0 tasks] by simp
  then show ?thesis by (auto simp: in_set_conv_nth)
qed

lemma settled_results_all:
  "\<forall>t\<in>set ts. is_settled t \<Longrightarrow> map Settled (settled_results ts) = ts"
proof (induction ts)
  case Nil
  then show ?case by simp
next
  case (Cons t ts)
  then show ?case by (cases t) simp_all
qed

lemma dispatch_tasks:
  assumes "dispatch calls w = (tasks, w1)"
    and "\<forall>c\<in>set calls. \<forall>x. extends x (snd (c x))"
  shows "length tasks = length calls \<and> extends w w1 \<and>
         (\<forall>i<length calls. \<exists>w0. tasks ! i = fst ((calls ! i) w0) \<and> extends w w0 \<and> extends w0 w1)"
  using assms
proof (induction calls arbitrary: w tasks w1)
  case Nil
  then show ?case by (simp add: extends_refl)
next
  case (Cons c calls)
  obtain t wa where c: "c w = (t, wa)" by force
  obtain ts wb where d: "dispatch calls wa = (ts, wb)" by force
  from Cons.prems(1) c d have tasks: "tasks = t # ts" and w1: "w1 = wb" by simp_all
  have e1: "extends w wa" using Cons.prems(2) c by (metis list.set_intros(1) snd_conv)
  from Cons.IH[OF d] Cons.prems(2) have len: "length ts = length calls" and e2: "extends wa wb"
    and each: "\<forall>i<length calls. \<exists>w0. ts ! i = fst ((calls ! i) w0) \<and> extends wa w0 \<and> extends w0 wb"
    by simp_all
  have "\<exists>w0. tasks ! i = fst (((c # calls) ! i) w0) \<and> extends w w0 \<and> extends w0 w1"
    if "i < length (c # calls)" for i
  proof (cases i)
    case 0
    then show ?thesis
      using c e1 e2 tasks w1 extends_refl extends_trans by (intro exI[of _ w]) auto
  next
    case (Suc j)
    with that each obtain w0 where "ts ! j = fst ((calls ! j) w0)" "extends wa w0" "extends w0 wb"
      by auto
    with Suc e1 tasks w1 show ?thesis
      by (intro exI[of _ w0]) (auto intro: extends_trans)
  qed
  with len e1 e2 tasks w1 show ?case by (auto intro: extends_trans)
qed


lemma await_all_settles:
  "await_all be tasks w1 = (final, w') \<Longrightarrow>
   length final = length tasks \<and> extends w1 w' \<and> (\<forall>t\<in>set final. is_settled t) \<and>
   (\<forall>i<length tasks. \<exists>ws. final ! i = resumed be (tasks ! i) ws \<and>
      successively extends (w1 # ws @ [w']))"
proof (induction be tasks w1 rule: await_all.induct)
  case (1 be tasks w1)
  show ?case
  proof (cases "next_pending be tasks w1")
    case None
    then have "final = tasks" "w' = w1" using "1.prems" by (simp_all add: await_all.simps)
    moreover have "\<exists>ws. tasks ! i = resumed be (tasks ! i) ws \<and>
        successively extends (w1 # ws @ [w1])" for i
      by (intro exI[of _ "[]"]) (simp add: extends_refl)
    ultimately show ?thesis using next_pending_None[OF None] by (simp add: extends_refl)
  next
    case (Some j)
    let ?t = "fst (resume be (tasks ! j) w1)"
    let ?w2 = "snd (resume be (tasks ! j) w1)"
    have run: "await_all be (tasks[j := ?t]) ?w2 = (final, w')"
      using "1.prems" Some by (simp add: await_all.simps[of be tasks w1])
    from "1.IH"[OF Some run] have len: "length final = length tasks" and e: "extends ?w2 w'"
      and set: "\<forall>t\<in>set final. is_settled t"
      and each: "\<forall>i<length tasks. \<exists>ws. final ! i = resumed be ((tasks[j := ?t]) ! i) ws \<and>
          successively extends (?w2 # ws @ [w'])"
      by simp_all
    have e12: "extends w1 ?w2" by (rule resume_extends)
    have "\<exists>ws. final ! i = resumed be (tasks ! i) ws \<and> successively extends (w1 # ws @ [w'])"
      if i: "i < length tasks" for i
    proof -
      from each i obtain ws where f: "final ! i = resumed be ((tasks[j := ?t]) ! i) ws"
        and c: "successively extends (?w2 # ws @ [w'])" by blast
      from chain_head[OF e12 c] have c1: "successively extends (w1 # ws @ [w'])" .
      show ?thesis
      proof (cases "i = j")
        case True
        with f i have "final ! i = resumed be (tasks ! i) (w1 # ws)" by simp
        moreover have "successively extends (w1 # (w1 # ws) @ [w'])"
          using c1 by (simp add: extends_refl)
        ultimately show ?thesis by blast
      next
        case False
        with f have "final ! i = resumed be (tasks ! i) ws" by simp
        with c1 show ?thesis by blast
      qed
    qed
    with len e e12 set show ?thesis by (auto intro: extends_trans)
  qed
qed

lemma promise_all_results:
  assumes run: "promise_all be calls w = (results, w')"
    and calls: "\<forall>c\<in>set calls. \<forall>x. extends x (snd (c x))"
  shows "length results = length calls \<and> extends w w' \<and>
         extends (snd (dispatch calls w)) w' \<and>
         (\<forall>i<length calls. \<exists>w0 ws. resumed be (fst ((calls ! i) w0)) ws = Settled (results ! i) \<and>
            successively extends (w # w0 # ws @ [w']))"
proof -
  obtain tasks w1 where d: "dispatch calls w = (tasks, w1)" by force
  obtain final wf where a: "await_all be tasks w1 = (final, wf)" by force
  from run d a have res: "results = settled_results final" and wf: "wf = w'"
    by (simp_all add: promise_all_def)
  from dispatch_tasks[OF d calls] have len1: "length tasks = length calls" and e1: "extends w w1"
    and started: "\<forall>i<length calls. \<exists>w0. tasks ! i = fst ((calls ! i) w0) \<and> extends w w0 \<and> extends w0 w1"
    by simp_all
  from await_all_settles[OF a] wf have len2: "length final = length tasks" and e2: "extends w1 w'"
    and settled: "\<forall>t\<in>set final. is_settled t"
    and each: "\<forall>i<length tasks. \<exists>ws. final ! i = resumed be (tasks ! i) ws \<and>
      successively extends (w1 # ws @ [w'])"
    by simp_all
  from settled_results_all[OF settled] res have m: "map Settled results = final" by simp
  then have len3: "length results = length final" by (metis length_map)
  have "\<exists>w0 ws. resumed be (fst ((calls ! i) w0)) ws = Settled (results ! i) \<and>
            successively extends (w # w0 # ws @ [w'])" if i: "i < length calls" for i
  proof -
    from started i obtain w0 where t: "tasks ! i = fst ((calls ! i) w0)"
      and a0: "extends w w0" and a1: "extends w0 w1" by blast
    from each i len1 obtain ws where f: "final ! i = resumed be (tasks ! i) ws"
      and c: "successively extends (w1 # ws @ [w'])" by auto
    have "final ! i = Settled (results ! i)"
      using m i len1 len2 len3 by (metis nth_map)
    with f t have "resumed be (fst ((calls ! i) w0)) ws = Settled (results ! i)" by simp
    moreover have "successively extends (w # w0 # ws @ [w'])"
      using chain_head[OF a1 c] a0 by simp
    ultimately show ?thesis by blast
  qed
  with len1 len2 len3 e1 e2 d show ?thesis by (auto intro: extends_trans)
qed

lemma createWorkspaces_results:
  assumes "createWorkspaces be org config names w = (results, w')"
  shows "length results = length names \<and> extends w w' \<and>
         (\<forall>i<length names. \<exists>w0 ws.
            resumed be (fst (createSingleWorkspace be org (names ! i)
                               (map_of (workspaces config) (names ! i)) w0)) ws
              = Settled (results ! i) \<and>
            successively extends (w # w0 # ws @ [w']))"
proof -
  let ?calls = "map (\<lambda>name. createSingleWorkspace be org name (map_of (workspaces config) name)) names"
  have run: "promise_all be ?calls w = (results, w')"
    using assms by (simp add: createWorkspaces_def)
  have "\<forall>c\<in>set ?calls. \<forall>x. extends x (snd (c x))"
    by (auto simp: createSingle_start)
  from promise_all_results[OF run this] show ?thesis by simp
qed

lemma deleteWorkspaces_results:
  assumes "deleteWorkspaces be org config names w = (results, w')"
  shows "length results = length names \<and> extends w w' \<and>
         (\<forall>i<length names. \<exists>w0 ws.
            resumed be (fst (deleteSingleWorkspace be org (names ! i) w0)) ws
              = Settled (results ! i) \<and>
            successively extends (w # w0 # ws @ [w']))"
proof -
  let ?calls = "map (\<lambda>name. deleteSingleWorkspace be org name) names"
  have run: "promise_all be ?calls w = (results, w')"
    using assms by (simp add: deleteWorkspaces_def)
  have "\<forall>c\<in>set ?calls. \<forall>x. extends x (snd (c x))"
    by (auto simp: deleteSingle_start)
  from promise_all_results[OF run this] show ?thesis by simp
qed

lemma createWorkspaces_entry:
  assumes "createWorkspaces be org config names w = (results, w')" "i < length names"
  shows "result_ok (results ! i) \<and> workspace (results ! i) = names ! i"
proof -
  let ?c = "map_of (workspaces config) (names ! i)"
  from createWorkspaces_results[OF assms(1)] assms(2) obtain w0 ws where
    r: "resumed be (fst (createSingleWorkspace be org (names ! i) ?c w0)) ws
              = Settled (results ! i)" by blast
  have "task_ok (Settled (results ! i))"
    using resumed_ok[OF createSingle_start(3), of be be org "names ! i" ?c w0 ws] r by simp
  moreover have "task_workspace (Settled (results ! i)) = names ! i"
    using resumed_workspace[of be "fst (createSingleWorkspace be org (names ! i) ?c w0)" ws]
      createSingle_start(2)[of be org "names ! i" ?c w0] r by simp
  ultimately show ?thesis by simp
qed

lemma deleteWorkspaces_entry:
  assumes "deleteWorkspaces be org config names w = (results, w')" "i < length names"
  shows "result_ok (results ! i) \<and> workspace (results ! i) = names ! i"
proof -
  from deleteWorkspaces_results[OF assms(1)] assms(2) obtain w0 ws where
    r: "resumed be (fst (deleteSingleWorkspace be org (names ! i) w0)) ws
              = Settled (results ! i)" by blast
  have "task_ok (Settled (results ! i))"
    using resumed_ok[OF deleteSingle_start(3), of be be org "names ! i" w0 ws] r by simp
  moreover have "task_workspace (Settled (results ! i)) = names ! i"
    using resumed_workspace[of be "fst (deleteSingleWorkspace be org (names ! i) w0)" ws]
      deleteSingle_start(2)[of be org "names ! i" w0] r by simp
  ultimately show ?thesis by simp
qed

lemma createWorkspaces_ok:
  "\<forall>r\<in>set (fst (createWorkspaces be org config names w)). result_ok r"
proof -
  obtain results w' where run: "createWorkspaces be org config names w = (results, w')" by force
  from createWorkspaces_results[OF run] have "length results = length names" by simp
  with createWorkspaces_entry[OF run] run show ?thesis by (auto simp: in_set_conv_nth)
qed

lemma deleteWorkspaces_ok:
  "\<forall>r\<in>set (fst (deleteWorkspaces be org config names w)). result_ok r"
proof -
  obtain results w' where run: "deleteWorkspaces be org config names w = (results, w')" by force
  from deleteWorkspaces_results[OF run] have "length results = length names" by simp
  with deleteWorkspaces_entry[OF run] run show ?thesis by (auto simp: in_set_conv_nth)
qed


section \<open>Shape of the results (claim C10)\<close>

lemma applySingle_ok:
  "result_ok (fst (applySingleWorkspace be org name w))"
  "workspace (fst (applySingleWorkspace be org name w)) = name"
  by (auto simp: applySingleWorkspace_def result_ok_def failure_result_def split: prod.splits sum.splits)

lemma destroySingle_ok:
  "result_ok (fst (destroySingleWorkspace be org name w))"
  "workspace (fst (destroySingleWorkspace be org name w)) = name"
  by (auto simp: destroySingleWorkspace_def result_ok_def failure_result_def split: prod.splits sum.splits)

lemma applyWorkspaces_ok:
  "applyWorkspaces be org names w = (results, w') \<Longrightarrow> r \<in> set results \<Longrightarrow> result_ok r"
proof (induction names arbitrary: w results w')
  case Nil
  then show ?case by simp
next
  case (Cons name names)
  obtain res w1 where s: "applySingleWorkspace be org name w = (res, w1)" by force
  have ok: "result_ok res" using applySingle_ok(1)[of be org name w] s by simp
  show ?case
  proof (cases "success res")
    case False
    with Cons.prems s ok show ?thesis by auto
  next
    case True
    obtain rs w2 where t: "applyWorkspaces be org names w1 = (rs, w2)" by force
    with Cons.prems s True have "results = res # rs" by simp
    with Cons.prems(2) Cons.IH[OF t] ok show ?thesis by auto
  qed
qed

lemma destroyWorkspaces_ok:
  "destroyWorkspaces be org names w = (results, w') \<Longrightarrow> r \<in> set results \<Longrightarrow> result_ok r"
proof (induction names arbitrary: w results w')
  case Nil
  then show ?case by simp
next
  case (Cons name names)
  obtain res w1 where s: "destroySingleWorkspace be org name w = (res, w1)" by force
  have ok: "result_ok res" using destroySingle_ok(1)[of be org name w] s by simp
  obtain rs w2 where t: "destroyWorkspaces be org names
      (if \<not> success res then perform be (CoreWarning (FailedToDestroyContinuing name)) w1 else w1)
      = (rs, w2)" by force
  with Cons.prems s have "results = res # rs" by simp
  with Cons.prems(2) Cons.IH[OF t] ok show ?case by auto
qed

text \<open>
  Claim C10. Every result that a strategy produces, and so every result that \<^verbatim>\<open>execute\<close>
  returns, has the shape \<open>result_ok\<close>: with \<^verbatim>\<open>success\<close> false the error message is set and
  \<^verbatim>\<open>workspaceId\<close> and \<^verbatim>\<open>workspaceUrl\<close> are absent, also when the workspace had been created
  before a later step failed; with \<^verbatim>\<open>success\<close> true the error is absent.
\<close>

theorem results_well_formed:
  "(\<forall>r\<in>set (fst (createWorkspaces be organization config names w)). result_ok r) \<and>
   (\<forall>r\<in>set (fst (deleteWorkspaces be organization config names w)). result_ok r) \<and>
   (\<forall>r\<in>set (fst (applyWorkspaces be organization names w)). result_ok r) \<and>
   (\<forall>r\<in>set (fst (destroyWorkspaces be organization names w)). result_ok r) \<and>
   (execute be organization config w = (Inr results, w') \<longrightarrow> (\<forall>r\<in>set results. result_ok r))"
proof -
  have c: "\<forall>r\<in>set (fst (createWorkspaces be organization config ns w)). result_ok r" for ns
    by (rule createWorkspaces_ok)
  have d: "\<forall>r\<in>set (fst (deleteWorkspaces be organization config ns w)). result_ok r" for ns
    by (rule deleteWorkspaces_ok)
  have a: "\<forall>r\<in>set (fst (applyWorkspaces be organization ns w)). result_ok r" for ns
    using applyWorkspaces_ok[of be organization ns w] by (metis prod.collapse)
  have y: "\<forall>r\<in>set (fst (destroyWorkspaces be organization ns w)). result_ok r" for ns
    using destroyWorkspaces_ok[of be organization ns w] by (metis prod.collapse)
  have "\<forall>r\<in>set results. result_ok r"
    if "execute be organization config w = (Inr results, w')"
  proof -
    from that obtain ns where
      run: "(case action config of
             Create \<Rightarrow> createWorkspaces be organization config ns w
           | Delete \<Rightarrow> deleteWorkspaces be organization config ns w
           | Apply \<Rightarrow> applyWorkspaces be organization ns w
           | Destroy \<Rightarrow> destroyWorkspaces be organization ns w) = (results, w')"
      by (auto simp: execute_def split: sum.splits prod.splits)
    show ?thesis
    proof (cases "action config")
      case Create
      with run c[of ns] show ?thesis by simp
    next
      case Delete
      with run d[of ns] show ?thesis by simp
    next
      case Apply
      with run a[of ns] show ?thesis by simp
    next
      case Destroy
      with run y[of ns] show ?thesis by simp
    qed
  qed
  with c d a y show ?thesis by blast
qed

section \<open>Parallel strategies (claim C9)\<close>


section \<open>Sequential strategies (claims C3, C4)\<close>

lemma destroySingle_attempt:
  assumes "destroySingleWorkspace be org name w = (r, w')"
  shows "extends w w' \<and> GetWorkspaceCall org name \<in> set (new_events w w')"
proof -
  let ?w1 = "perform be (GetWorkspaceCall org name) w"
  obtain o1 w1 where t: "run_try be org name ''Destroy triggered by GitHub Actions'' True w = (o1, w1)"
    by force
  have "extends w1 w'"
    using assms t by (auto simp: destroySingleWorkspace_def extends_refl extends_perform split: sum.splits)
  with run_try_extends[OF t] have e: "extends ?w1 w'" using extends_trans by blast
  have "new_events w w' = new_events w ?w1 @ new_events ?w1 w'"
    by (rule new_events_trans[OF extends_perform e])
  then show ?thesis
    using e extends_perform extends_trans by (fastforce simp: new_events_perform)
qed

lemma destroyWorkspaces_attempts:
  assumes "destroyWorkspaces be organization names w = (results, w')"
  shows "map workspace results = names \<and> extends w w' \<and>
         (\<forall>name\<in>set names. GetWorkspaceCall organization name \<in> set (new_events w w'))"
proof -
  have "map workspace results = names \<and> extends w w' \<and>
         (\<forall>name\<in>set names. GetWorkspaceCall organization name \<in> set (new_events w w'))"
    using assms
  proof (induction names arbitrary: w results w')
    case Nil
    then show ?case by (simp add: extends_refl)
  next
    case (Cons name names)
    obtain res w1 where s: "destroySingleWorkspace be organization name w = (res, w1)" by force
    let ?w1' = "if \<not> success res
                then perform be (CoreWarning (FailedToDestroyContinuing name)) w1 else w1"
    obtain rs w2 where t: "destroyWorkspaces be organization names ?w1' = (rs, w2)" by force
    from Cons.prems s t have res: "results = res # rs" and w': "w' = w2" by simp_all
    from destroySingle_attempt[OF s] have e1: "extends w w1"
      and c1: "GetWorkspaceCall organization name \<in> set (new_events w w1)" by simp_all
    have e1': "extends w1 ?w1'" by (simp add: extends_refl extends_perform)
    from Cons.IH[OF t] have m: "map workspace rs = names" and e2: "extends ?w1' w2"
      and c2: "\<forall>n\<in>set names. GetWorkspaceCall organization n \<in> set (new_events ?w1' w2)"
      by simp_all
    have e12: "extends w1 w2" using e1' e2 by (rule extends_trans)
    have n1: "new_events w w2 = new_events w w1 @ new_events w1 w2"
      by (rule new_events_trans[OF e1 e12])
    have n2: "new_events w1 w2 = new_events w1 ?w1' @ new_events ?w1' w2"
      by (rule new_events_trans[OF e1' e2])
    have "workspace res = name" using destroySingle_ok(2)[of be organization name w] s by simp
    with m res have "map workspace results = name # names" by simp
    moreover have "extends w w'" using e1 e12 w' extends_trans by blast
    moreover have "\<forall>n\<in>set (name # names).
        GetWorkspaceCall organization n \<in> set (new_events w w')"
      using c1 c2 n1 n2 w' by auto
    ultimately show ?case by simp
  qed
  then show ?thesis by simp
qed

lemma run_try_completes:
  assumes "run_try be org name message isDestroy w = (r, w')"
  shows "(\<exists>wsId. r = Inr wsId) \<longleftrightarrow> run_completes be org name message isDestroy w"
proof (cases "getWorkspace be w org name")
  case (Inl t)
  with assms show ?thesis by (auto simp: run_try_def run_completes_def Let_def)
next
  case found: (Inr found)
  show ?thesis
  proof (cases "createRun be (perform be (GetWorkspaceCall org name) w)
                  (data_id found) message isDestroy True")
    case (Inl t)
    with assms found show ?thesis by (auto simp: run_try_def run_completes_def Let_def)
  next
    case (Inr created)
    obtain o3 w3 where wt: "waitForRun be (run_data_id created) None
          (perform be (CreateRunCall (data_id found) message isDestroy True)
             (perform be (GetWorkspaceCall org name) w)) = (o3, w3)" by force
    with assms found Inr show ?thesis
      by (cases o3) (auto simp: run_try_def run_completes_def Let_def)
  qed
qed

lemma run_try_creates_run:
  assumes "run_try be org name message isDestroy w = (r, w')"
    and "getWorkspace be w org name = Inr found"
  shows "CreateRunCall (data_id found) message isDestroy True \<in> set (new_events w w')"
proof -
  let ?w1 = "perform be (GetWorkspaceCall org name) w"
  let ?w2 = "perform be (CreateRunCall (data_id found) message isDestroy True) ?w1"
  have "extends ?w2 w'"
  proof (cases "createRun be ?w1 (data_id found) message isDestroy True")
    case (Inl t)
    with assms show ?thesis by (auto simp: run_try_def Let_def extends_refl)
  next
    case (Inr created)
    obtain o3 w3 where wt: "waitForRun be (run_data_id created) None ?w2 = (o3, w3)" by force
    then have "extends ?w2 w3" by (auto simp: waitForRun_def intro: waitForRun_loop_extends)
    moreover have "w' = w3" using assms Inr wt
      by (auto simp: run_try_def Let_def split: sum.splits)
    ultimately show ?thesis by simp
  qed
  then have "trace w' = trace ?w2 @ new_events ?w2 w'" by (simp add: extends_iff)
  then have "trace w' = trace w @ ([GetWorkspaceCall org name,
      CreateRunCall (data_id found) message isDestroy True] @ new_events ?w2 w')"
    by (simp add: perform_def)
  then have "new_events w w' = [GetWorkspaceCall org name,
      CreateRunCall (data_id found) message isDestroy True] @ new_events ?w2 w'"
    unfolding new_events_def[of w w'] by (metis append_eq_conv_conj)
  then show ?thesis by simp
qed

lemma destroySingle_outcome:
  assumes "destroySingleWorkspace be org name w = (res, w')"
  shows "(success res \<longleftrightarrow>
            run_completes be org name ''Destroy triggered by GitHub Actions'' True w) \<and>
         (\<forall>found. getWorkspace be w org name = Inr found \<longrightarrow>
            CreateRunCall (data_id found) ''Destroy triggered by GitHub Actions'' True True
              \<in> set (new_events w w'))"
proof -
  obtain r w1 where t: "run_try be org name ''Destroy triggered by GitHub Actions'' True w = (r, w1)"
    by force
  have s: "success res \<longleftrightarrow> (\<exists>wsId. r = Inr wsId)"
    using assms t by (cases r) (auto simp: destroySingleWorkspace_def failure_result_def)
  have e: "extends w1 w'"
    using assms t by (cases r) (auto simp: destroySingleWorkspace_def extends_refl extends_perform)
  have e0: "extends w w1"
    using run_try_extends[OF t] extends_perform extends_trans by blast
  have "CreateRunCall (data_id found) ''Destroy triggered by GitHub Actions'' True True
              \<in> set (new_events w w')" if "getWorkspace be w org name = Inr found" for found
    using run_try_creates_run[OF t that] new_events_trans[OF e0 e] by simp
  with s run_try_completes[OF t] show ?thesis by blast
qed

lemma destroyWorkspaces_append:
  "destroyWorkspaces be org (pre @ rest) w =
     (case destroyWorkspaces be org pre w of
        (rs, w1) \<Rightarrow> (case destroyWorkspaces be org rest w1 of (rs', w') \<Rightarrow> (rs @ rs', w')))"
  by (induction pre arbitrary: w) (auto split: prod.splits)

text \<open>
  Claim C4. On the plan \<open>pre @ wk # post\<close> the destroy strategy returns the results for
  \<open>pre\<close>, then the result of the attempt on \<open>wk\<close>, then the results for \<open>post\<close>, which it
  runs from the world that the attempt on \<open>wk\<close> left (after a warning if it failed),
  whatever the attempts on \<open>pre\<close> and on \<open>wk\<close> returned. So there is one result per
  workspace, in plan order, and every workspace is attempted. The attempt on \<open>wk\<close>
  succeeds exactly when its workspace is found, its destroy run is created and
  \<^verbatim>\<open>waitForRun\<close> returns; whenever the workspace is found a destroy run is requested; and a
  failed attempt is recorded with \<^verbatim>\<open>success\<close> false and an error message.
\<close>

theorem destroy_attempts_every_workspace:
  assumes before: "destroyWorkspaces be organization pre w = (rs, w1)"
    and attempt: "destroySingleWorkspace be organization wk w1 = (res, w2)"
    and after: "destroyWorkspaces be organization post
                  (if \<not> success res
                   then perform be (CoreWarning (FailedToDestroyContinuing wk)) w2 else w2)
                = (rs', w')"
  shows "destroyWorkspaces be organization (pre @ wk # post) w = (rs @ res # rs', w') \<and>
         map workspace (rs @ res # rs') = pre @ wk # post \<and>
         (\<forall>name\<in>set (pre @ wk # post).
            GetWorkspaceCall organization name \<in> set (new_events w w')) \<and>
         (success res \<longleftrightarrow>
            run_completes be organization wk ''Destroy triggered by GitHub Actions'' True w1) \<and>
         (\<forall>found. getWorkspace be w1 organization wk = Inr found \<longrightarrow>
            CreateRunCall (data_id found) ''Destroy triggered by GitHub Actions'' True True
              \<in> set (new_events w1 w2)) \<and>
         (\<not> success res \<longrightarrow>
            error res \<noteq> None \<and>
            CoreWarning (FailedToDestroyContinuing wk) \<in> set (new_events w2 w'))"
proof -
  let ?w2' = "if \<not> success res
              then perform be (CoreWarning (FailedToDestroyContinuing wk)) w2 else w2"
  have whole: "destroyWorkspaces be organization (pre @ wk # post) w = (rs @ res # rs', w')"
    using before attempt after by (simp add: destroyWorkspaces_append)
  from destroyWorkspaces_attempts[OF whole]
  have names: "map workspace (rs @ res # rs') = pre @ wk # post"
    and calls: "\<forall>name\<in>set (pre @ wk # post).
            GetWorkspaceCall organization name \<in> set (new_events w w')"
    by simp_all
  have ok: "result_ok res" using destroySingle_ok(1)[of be organization wk w1] attempt by simp
  have warn: "CoreWarning (FailedToDestroyContinuing wk) \<in> set (new_events w2 w')"
    if f: "\<not> success res"
  proof -
    from destroyWorkspaces_attempts[OF after] have e: "extends ?w2' w'" by simp
    have "new_events w2 w' = new_events w2 ?w2' @ new_events ?w2' w'"
      by (rule new_events_trans[OF _ e]) (simp add: extends_refl extends_perform)
    with f show ?thesis by (simp add: new_events_perform)
  qed
  from whole names calls destroySingle_outcome[OF attempt] ok warn show ?thesis
    by (auto simp: result_ok_def)
qed

lemma applyWorkspaces_all_succeed:
  "applyWorkspaces be org pre w = (rs, w1) \<Longrightarrow> \<forall>r\<in>set rs. success r \<Longrightarrow>
   map workspace rs = pre \<and>
   applyWorkspaces be org (pre @ rest) w =
     (case applyWorkspaces be org rest w1 of (rs', w2) \<Rightarrow> (rs @ rs', w2))"
proof (induction pre arbitrary: w rs w1)
  case Nil
  then show ?case by (auto split: prod.splits)
next
  case (Cons name pre)
  obtain res w0 where s: "applySingleWorkspace be org name w = (res, w0)" by force
  have nm: "workspace res = name" using applySingle_ok(2)[of be org name w] s by simp
  have ok: "success res"
  proof (rule ccontr)
    assume "\<not> success res"
    with Cons.prems(1) s have "rs = [res]" by simp
    with Cons.prems(2) \<open>\<not> success res\<close> show False by simp
  qed
  obtain rs0 w0' where t: "applyWorkspaces be org pre w0 = (rs0, w0')" by force
  with Cons.prems(1) s ok have rs: "rs = res # rs0" and w1: "w1 = w0'" by simp_all
  from Cons.prems(2) rs have "\<forall>r\<in>set rs0. success r" by simp
  from Cons.IH[OF t this] have m: "map workspace rs0 = pre"
    and a: "applyWorkspaces be org (pre @ rest) w0 =
      (case applyWorkspaces be org rest w0' of (rs', w2) \<Rightarrow> (rs0 @ rs', w2))" by simp_all
  show ?case using s ok a rs w1 m nm by (auto split: prod.splits)
qed

text \<open>
  Claim C3. If the apply strategy succeeds on every workspace of \<open>pre\<close> and the attempt on
  \<open>wk\<close> fails, then on the plan \<open>pre @ wk # post\<close> it returns the results for \<open>pre\<close> followed
  by the failure of \<open>wk\<close>, exactly as on the plan cut after \<open>wk\<close>: same results and same
  final world. After the attempt on \<open>wk\<close> the only event is the error line that announces
  the stop, so no workspace of \<open>post\<close> is attempted.
\<close>

theorem apply_stops_at_first_failure:
  assumes before: "applyWorkspaces be organization pre w = (rs, w1)"
    and succeed: "\<forall>r\<in>set rs. success r"
    and attempt: "applySingleWorkspace be organization wk w1 = (res, w2)"
    and fails: "\<not> success res"
  shows "applyWorkspaces be organization (pre @ wk # post) w
           = (rs @ [res], perform be (CoreError (StoppingApplyProcess wk)) w2) \<and>
         map workspace (rs @ [res]) = pre @ [wk] \<and>
         applyWorkspaces be organization (pre @ wk # post) w
           = applyWorkspaces be organization (pre @ [wk]) w \<and>
         new_events w2 (snd (applyWorkspaces be organization (pre @ wk # post) w))
           = [CoreError (StoppingApplyProcess wk)]"
proof -
  from applyWorkspaces_all_succeed[OF before succeed]
  have m: "map workspace rs = pre"
    and a: "\<And>rest. applyWorkspaces be organization (pre @ rest) w =
      (case applyWorkspaces be organization rest w1 of (rs', w2) \<Rightarrow> (rs @ rs', w2))"
    by simp_all
  have "\<And>rest. applyWorkspaces be organization (wk # rest) w1
          = ([res], perform be (CoreError (StoppingApplyProcess wk)) w2)"
    using attempt fails by simp
  then have "\<And>rest. applyWorkspaces be organization (pre @ wk # rest) w
          = (rs @ [res], perform be (CoreError (StoppingApplyProcess wk)) w2)"
    using a by simp
  from this[of post] this[of "[]"] m applySingle_ok(2)[of be organization wk w1] attempt
  show ?thesis by (simp add: new_events_perform)
qed

section \<open>Run tracker (claims C7, C8)\<close>




text \<open>
  Claim C7. In any iteration that is not timed out, a poll that reports canceled,
  force_canceled or discarded makes \<^verbatim>\<open>waitForRun\<close> return that run after logging a warning,
  and a poll that reports errored makes it throw. So when the run that
  \<^verbatim>\<open>applySingleWorkspace\<close> or \<^verbatim>\<open>destroySingleWorkspace\<close> waits for ends canceled, force_canceled
  or discarded, the result of the attempt has \<^verbatim>\<open>success\<close> true.
\<close>

theorem canceled_run_recorded_as_success:
  "(getJson be w runId = Inr \<lparr>statusCode = 200, result = Some run\<rparr> \<and>
      \<not> now w - startTime > timeout \<longrightarrow>
      (status run \<in> {canceled, force_canceled, discarded} \<longrightarrow>
         waitForRun_loop be runId timeout startTime w
           = (Inr run, perform be (CoreWarning (RunEndedWithStatus (status run)))
                         (perform be (GetRunCall runId) w))) \<and>
      (status run = errored \<longrightarrow>
         waitForRun_loop be runId timeout startTime w
           = (Inl (Error (RunFailedWithStatus errored)), perform be (GetRunCall runId) w))) \<and>
   (getWorkspace be w0 organization name = Inr found \<and>
      createRun be (perform be (GetWorkspaceCall organization name) w0)
        (data_id found) message isDestroy True = Inr created \<and>
      waitForRun be (run_data_id created) None
        (perform be (CreateRunCall (data_id found) message isDestroy True)
           (perform be (GetWorkspaceCall organization name) w0)) = (Inr final, w3) \<and>
      status final \<in> {canceled, force_canceled, discarded} \<longrightarrow>
      (message = ''Apply triggered by GitHub Actions'' \<and> \<not> isDestroy \<longrightarrow>
         applySingleWorkspace be organization name w0
           = (\<lparr>workspace = name, success = True, workspaceId = Some (data_id found),
               workspaceUrl = None, error = None\<rparr>, w3)) \<and>
      (message = ''Destroy triggered by GitHub Actions'' \<and> isDestroy \<longrightarrow>
         destroySingleWorkspace be organization name w0
           = (\<lparr>workspace = name, success = True, workspaceId = Some (data_id found),
               workspaceUrl = None, error = None\<rparr>, w3)))"
proof -
  have step: "waitForRun_loop be runId timeout startTime w
           = (Inr run, perform be (CoreWarning (RunEndedWithStatus (status run)))
                         (perform be (GetRunCall runId) w))"
    if "getJson be w runId = Inr \<lparr>statusCode = 200, result = Some run\<rparr>"
      "\<not> now w - startTime > timeout" "status run \<in> {canceled, force_canceled, discarded}"
    using that
    by (auto simp: waitForRun_loop.simps[of be runId timeout startTime w] poll_once_def
          Let_def terminalStates_def)
  have err: "waitForRun_loop be runId timeout startTime w
           = (Inl (Error (RunFailedWithStatus errored)), perform be (GetRunCall runId) w)"
    if "getJson be w runId = Inr \<lparr>statusCode = 200, result = Some run\<rparr>"
      "\<not> now w - startTime > timeout" "status run = errored"
    using that
    by (auto simp: waitForRun_loop.simps[of be runId timeout startTime w] poll_once_def
          Let_def terminalStates_def)
  have att: "run_try be organization name message isDestroy w0 = (Inr (data_id found), w3)"
    if "getWorkspace be w0 organization name = Inr found"
      "createRun be (perform be (GetWorkspaceCall organization name) w0)
        (data_id found) message isDestroy True = Inr created"
      "waitForRun be (run_data_id created) None
        (perform be (CreateRunCall (data_id found) message isDestroy True)
           (perform be (GetWorkspaceCall organization name) w0)) = (Inr final, w3)"
    using that by (simp add: run_try_def Let_def)
  show ?thesis
    using step err att
    by (auto simp: applySingleWorkspace_def destroySingleWorkspace_def)
qed

section \<open>Runs on the example backends\<close>

lemmas run_simps = applySingleWorkspace_def destroySingleWorkspace_def run_try_def
  waitForRun_def waitForRun_loop.simps poll_once_def perform_def requested_delay_def
  ex_backend_def ex_world_def applied_at_second_poll_def canceled_at_second_poll_def
  terminalStates_def pollInterval_def
  defaultTimeout_def failure_result_def errorMessage_def Let_def new_events_def

lemmas create_simps = createWorkspaces_def deleteWorkspaces_def promise_all_def
  createSingleWorkspace_def deleteSingleWorkspace_def create_caught_def create_returned_def
  attach_or_later_def variables_or_return_def workspace_options_def await_all.simps
  next_pending_def execute_def ex_varset_def ex_two_varsets_def ex_order_backend_def

lemma ex_apply_a:
  "applySingleWorkspace (ex_backend {''b''} applied_at_second_poll) ''org'' ''a'' ex_world
     = (\<lparr>workspace = ''a'', success = True, workspaceId = Some ''ws-a'', workspaceUrl = None,
         error = None\<rparr>,
        \<lparr>now = 5000,
         trace = [GetWorkspaceCall ''org'' ''a'',
                  CreateRunCall ''ws-a'' ''Apply triggered by GitHub Actions'' False True,
                  GetRunCall ''run-ws-a'', SetTimeout 5000, GetRunCall ''run-ws-a'']\<rparr>)"
  by (simp add: run_simps)

theorem apply_stops_at_first_failure_witness:
  "applyWorkspaces (ex_backend {''b''} applied_at_second_poll) ''org'' [''a'', ''b'', ''c''] ex_world
     = ([\<lparr>workspace = ''a'', success = True, workspaceId = Some ''ws-a'', workspaceUrl = None,
          error = None\<rparr>,
         \<lparr>workspace = ''b'', success = False, workspaceId = None, workspaceUrl = None,
          error = Some (ClientMessage ''Failed to get workspace: HTTP 404'')\<rparr>],
        \<lparr>now = 5000,
         trace = [GetWorkspaceCall ''org'' ''a'',
                  CreateRunCall ''ws-a'' ''Apply triggered by GitHub Actions'' False True,
                  GetRunCall ''run-ws-a'', SetTimeout 5000, GetRunCall ''run-ws-a'',
                  GetWorkspaceCall ''org'' ''b'',
                  CoreError (FailedToApplyWorkspace ''b''
                    (ClientMessage ''Failed to get workspace: HTTP 404'')),
                  CoreError (StoppingApplyProcess ''b'')]\<rparr>)"
proof -
  let ?be = "ex_backend {''b''} applied_at_second_poll"
  let ?ra = "\<lparr>workspace = ''a'', success = True, workspaceId = Some ''ws-a'',
              workspaceUrl = None, error = None\<rparr>"
  let ?wa = "\<lparr>now = 5000,
         trace = [GetWorkspaceCall ''org'' ''a'',
                  CreateRunCall ''ws-a'' ''Apply triggered by GitHub Actions'' False True,
                  GetRunCall ''run-ws-a'', SetTimeout 5000, GetRunCall ''run-ws-a'']\<rparr>"
  let ?rb = "\<lparr>workspace = ''b'', success = False, workspaceId = None, workspaceUrl = None,
          error = Some (ClientMessage ''Failed to get workspace: HTTP 404'')\<rparr>"
  let ?wb = "\<lparr>now = 5000,
         trace = [GetWorkspaceCall ''org'' ''a'',
                  CreateRunCall ''ws-a'' ''Apply triggered by GitHub Actions'' False True,
                  GetRunCall ''run-ws-a'', SetTimeout 5000, GetRunCall ''run-ws-a'',
                  GetWorkspaceCall ''org'' ''b'',
                  CoreError (FailedToApplyWorkspace ''b''
                    (ClientMessage ''Failed to get workspace: HTTP 404''))]\<rparr>"
  have before: "applyWorkspaces ?be ''org'' [''a''] ex_world = ([?ra], ?wa)"
    by (simp add: ex_apply_a)
  have succeed: "\<forall>r\<in>set [?ra]. success r" by simp
  have attempt: "applySingleWorkspace ?be ''org'' ''b'' ?wa = (?rb, ?wb)"
    by (simp add: run_simps)
  have fails: "\<not> success ?rb" by simp
  from apply_stops_at_first_failure[OF before succeed attempt fails, of "[''c'']"]
  show ?thesis by (simp add: perform_def requested_delay_def ex_backend_def)
qed

theorem destroy_attempts_every_workspace_witness:
  "destroyWorkspaces (ex_backend {''b''} applied_at_second_poll) ''org''
      [''c'', ''b'', ''a''] ex_world
   = ([\<lparr>workspace = ''c'', success = True, workspaceId = Some ''ws-c'', workspaceUrl = None,
         error = None\<rparr>,
       \<lparr>workspace = ''b'', success = False, workspaceId = None, workspaceUrl = None,
         error = Some (ClientMessage ''Failed to get workspace: HTTP 404'')\<rparr>,
       \<lparr>workspace = ''a'', success = True, workspaceId = Some ''ws-a'', workspaceUrl = None,
         error = None\<rparr>],
      \<lparr>now = 10000,
       trace = [GetWorkspaceCall ''org'' ''c'',
                CreateRunCall ''ws-c'' ''Destroy triggered by GitHub Actions'' True True,
                GetRunCall ''run-ws-c'', SetTimeout 5000, GetRunCall ''run-ws-c'',
                GetWorkspaceCall ''org'' ''b'',
                CoreError (FailedToDestroyWorkspace ''b''
                  (ClientMessage ''Failed to get workspace: HTTP 404'')),
                CoreWarning (FailedToDestroyContinuing ''b''),
                GetWorkspaceCall ''org'' ''a'',
                CreateRunCall ''ws-a'' ''Destroy triggered by GitHub Actions'' True True,
                GetRunCall ''run-ws-a'', SetTimeout 5000, GetRunCall ''run-ws-a'']\<rparr>) \<and>
   destroyWorkspaces (ex_backend {} always_errored) ''org'' [''c'', ''a''] ex_world
   = ([\<lparr>workspace = ''c'', success = False, workspaceId = None, workspaceUrl = None,
         error = Some (RunFailedWithStatus errored)\<rparr>,
       \<lparr>workspace = ''a'', success = False, workspaceId = None, workspaceUrl = None,
         error = Some (RunFailedWithStatus errored)\<rparr>],
      \<lparr>now = 0,
       trace = [GetWorkspaceCall ''org'' ''c'',
                CreateRunCall ''ws-c'' ''Destroy triggered by GitHub Actions'' True True,
                GetRunCall ''run-ws-c'',
                CoreError (FailedToDestroyWorkspace ''c'' (RunFailedWithStatus errored)),
                CoreWarning (FailedToDestroyContinuing ''c''),
                GetWorkspaceCall ''org'' ''a'',
                CreateRunCall ''ws-a'' ''Destroy triggered by GitHub Actions'' True True,
                GetRunCall ''run-ws-a'',
                CoreError (FailedToDestroyWorkspace ''a'' (RunFailedWithStatus errored)),
                CoreWarning (FailedToDestroyContinuing ''a'')]\<rparr>)"
proof -
  let ?be = "ex_backend {''b''} applied_at_second_poll"
  let ?rc = "\<lparr>workspace = ''c'', success = True, workspaceId = Some ''ws-c'',
              workspaceUrl = None, error = None\<rparr>"
  let ?rb = "\<lparr>workspace = ''b'', success = False, workspaceId = None, workspaceUrl = None,
              error = Some (ClientMessage ''Failed to get workspace: HTTP 404'')\<rparr>"
  let ?ra = "\<lparr>workspace = ''a'', success = True, workspaceId = Some ''ws-a'',
              workspaceUrl = None, error = None\<rparr>"
  let ?tc = "[GetWorkspaceCall ''org'' ''c'',
              CreateRunCall ''ws-c'' ''Destroy triggered by GitHub Actions'' True True,
              GetRunCall ''run-ws-c'', SetTimeout 5000, GetRunCall ''run-ws-c'']"
  let ?tb = "?tc @ [GetWorkspaceCall ''org'' ''b'',
              CoreError (FailedToDestroyWorkspace ''b''
                (ClientMessage ''Failed to get workspace: HTTP 404''))]"
  let ?ta = "?tb @ [CoreWarning (FailedToDestroyContinuing ''b''),
              GetWorkspaceCall ''org'' ''a'',
              CreateRunCall ''ws-a'' ''Destroy triggered by GitHub Actions'' True True,
              GetRunCall ''run-ws-a'', SetTimeout 5000, GetRunCall ''run-ws-a'']"
  let ?wc = "\<lparr>now = 5000, trace = ?tc\<rparr>"
  let ?wb = "\<lparr>now = 5000, trace = ?tb\<rparr>"
  let ?wa = "\<lparr>now = 10000, trace = ?ta\<rparr>"
  have before: "destroyWorkspaces ?be ''org'' [''c''] ex_world = ([?rc], ?wc)"
    by (simp add: run_simps)
  have attempt: "destroySingleWorkspace ?be ''org'' ''b'' ?wc = (?rb, ?wb)"
    by (simp add: run_simps)
  have after: "destroyWorkspaces ?be ''org'' [''a'']
                 (if \<not> success ?rb
                  then perform ?be (CoreWarning (FailedToDestroyContinuing ''b'')) ?wb else ?wb)
               = ([?ra], ?wa)"
    by (simp add: run_simps)
  have errored: "destroyWorkspaces (ex_backend {} always_errored) ''org'' [''c'', ''a''] ex_world
   = ([\<lparr>workspace = ''c'', success = False, workspaceId = None, workspaceUrl = None,
         error = Some (RunFailedWithStatus errored)\<rparr>,
       \<lparr>workspace = ''a'', success = False, workspaceId = None, workspaceUrl = None,
         error = Some (RunFailedWithStatus errored)\<rparr>],
      \<lparr>now = 0,
       trace = [GetWorkspaceCall ''org'' ''c'',
                CreateRunCall ''ws-c'' ''Destroy triggered by GitHub Actions'' True True,
                GetRunCall ''run-ws-c'',
                CoreError (FailedToDestroyWorkspace ''c'' (RunFailedWithStatus errored)),
                CoreWarning (FailedToDestroyContinuing ''c''),
                GetWorkspaceCall ''org'' ''a'',
                CreateRunCall ''ws-a'' ''Destroy triggered by GitHub Actions'' True True,
                GetRunCall ''run-ws-a'',
                CoreError (FailedToDestroyWorkspace ''a'' (RunFailedWithStatus errored)),
                CoreWarning (FailedToDestroyContinuing ''a'')]\<rparr>)"
    by (simp add: run_simps always_errored_def)
  from destroy_attempts_every_workspace[OF before attempt after] errored
  show ?thesis by simp
qed


theorem results_well_formed_witness:
  "execute (ex_backend {''varset-1''} applied_at_second_poll) ''org''
      \<lparr>action = Create, workspaces = ex_varset\<rparr> ex_world
     = (Inr [\<lparr>workspace = ''db'', success = False, workspaceId = None, workspaceUrl = None,
              error = Some (ClientMessage ''Failed to attach variable set: HTTP 404'')\<rparr>],
        \<lparr>now = 0,
         trace = [CreateWorkspaceCall ''org'' ''db''
                    \<lparr>autoApply = None, terraformVersion = None, executionMode = None,
                     vcsOption = None\<rparr>,
                  AttachVariableSetCall ''varset-1'' ''ws-db'',
                  CoreError (FailedToCreateWorkspace ''db''
                    (ClientMessage ''Failed to attach variable set: HTTP 404''))]\<rparr>) \<and>
   result_ok \<lparr>workspace = ''db'', success = False, workspaceId = None, workspaceUrl = None,
              error = Some (ClientMessage ''Failed to attach variable set: HTTP 404'')\<rparr>"
proof -
  have e: "execute (ex_backend {''varset-1''} applied_at_second_poll) ''org''
      \<lparr>action = Create, workspaces = ex_varset\<rparr> ex_world
     = (Inr [\<lparr>workspace = ''db'', success = False, workspaceId = None, workspaceUrl = None,
              error = Some (ClientMessage ''Failed to attach variable set: HTTP 404'')\<rparr>],
        \<lparr>now = 0,
         trace = [CreateWorkspaceCall ''org'' ''db''
                    \<lparr>autoApply = None, terraformVersion = None, executionMode = None,
                     vcsOption = None\<rparr>,
                  AttachVariableSetCall ''varset-1'' ''ws-db'',
                  CoreError (FailedToCreateWorkspace ''db''
                    (ClientMessage ''Failed to attach variable set: HTTP 404''))]\<rparr>)"
    by (simp add: create_simps run_simps ex_simps)
  from results_well_formed[where be = "ex_backend {''varset-1''} applied_at_second_poll"
      and organization = "''org''" and config = "\<lparr>action = Create, workspaces = ex_varset\<rparr>"
      and w = ex_world and w' = "\<lparr>now = 0,
         trace = [CreateWorkspaceCall ''org'' ''db''
                    \<lparr>autoApply = None, terraformVersion = None, executionMode = None,
                     vcsOption = None\<rparr>,
                  AttachVariableSetCall ''varset-1'' ''ws-db'',
                  CoreError (FailedToCreateWorkspace ''db''
                    (ClientMessage ''Failed to attach variable set: HTTP 404''))]\<rparr>"
      and results = "[\<lparr>workspace = ''db'', success = False, workspaceId = None,
              workspaceUrl = None,
              error = Some (ClientMessage ''Failed to attach variable set: HTTP 404'')\<rparr>]"] e
  show ?thesis by simp
qed


theorem canceled_run_recorded_as_success_witness:
  "applySingleWorkspace (ex_backend {} canceled_at_second_poll) ''org'' ''a'' ex_world
     = (\<lparr>workspace = ''a'', success = True, workspaceId = Some ''ws-a'', workspaceUrl = None,
         error = None\<rparr>,
        \<lparr>now = 5000,
         trace = [GetWorkspaceCall ''org'' ''a'',
                  CreateRunCall ''ws-a'' ''Apply triggered by GitHub Actions'' False True,
                  GetRunCall ''run-ws-a'', SetTimeout 5000, GetRunCall ''run-ws-a'',
                  CoreWarning (RunEndedWithStatus canceled)]\<rparr>) \<and>
   waitForRun_loop (ex_backend {} always_errored) ''run-1'' defaultTimeout 0 ex_world
     = (Inl (Error (RunFailedWithStatus errored)), \<lparr>now = 0, trace = [GetRunCall ''run-1'']\<rparr>)"
proof -
  let ?be = "ex_backend {} canceled_at_second_poll"
  let ?found = "\<lparr>data_id = ''ws-a'', html_url = ''https://app.terraform.io/a''\<rparr>"
  let ?created = "\<lparr>run_data_id = ''run-ws-a'', status = pending\<rparr>"
  let ?final = "\<lparr>run_data_id = ''run-ws-a'', status = canceled\<rparr>"
  let ?w3 = "\<lparr>now = 5000,
         trace = [GetWorkspaceCall ''org'' ''a'',
                  CreateRunCall ''ws-a'' ''Apply triggered by GitHub Actions'' False True,
                  GetRunCall ''run-ws-a'', SetTimeout 5000, GetRunCall ''run-ws-a'',
                  CoreWarning (RunEndedWithStatus canceled)]\<rparr>"
  have st: "status ?final \<in> {canceled, force_canceled, discarded}" by simp
  have g: "getWorkspace ?be ex_world ''org'' ''a'' = Inr ?found" by (simp add: run_simps)
  have c: "createRun ?be (perform ?be (GetWorkspaceCall ''org'' ''a'') ex_world) (data_id ?found)
             ''Apply triggered by GitHub Actions'' False True = Inr ?created"
    by (simp add: run_simps)
  have wt: "waitForRun ?be (run_data_id ?created) None
        (perform ?be (CreateRunCall (data_id ?found) ''Apply triggered by GitHub Actions'' False True)
           (perform ?be (GetWorkspaceCall ''org'' ''a'') ex_world)) = (Inr ?final, ?w3)"
    by (simp add: run_simps)
  have a: "applySingleWorkspace ?be ''org'' ''a'' ex_world
     = (\<lparr>workspace = ''a'', success = True, workspaceId = Some ''ws-a'', workspaceUrl = None,
         error = None\<rparr>, ?w3)"
    using canceled_run_recorded_as_success[where be = ?be and ?w0.0 = ex_world
        and organization = "''org''" and name = "''a''" and found = ?found
        and message = "''Apply triggered by GitHub Actions''" and isDestroy = False
        and created = ?created and final = ?final and ?w3.0 = ?w3, THEN conjunct2] g c wt st
    by simp
  have poll_e: "getJson (ex_backend {} always_errored) ex_world ''run-1''
      = Inr \<lparr>statusCode = 200, result = Some \<lparr>run_data_id = ''run-1'', status = errored\<rparr>\<rparr>"
    by (simp add: run_simps always_errored_def)
  have intime_e: "\<not> now ex_world - 0 > defaultTimeout" by (simp add: ex_world_def)
  have st_e: "status \<lparr>run_data_id = ''run-1'', status = errored\<rparr> = errored" by simp
  have e0: "waitForRun_loop (ex_backend {} always_errored) ''run-1'' defaultTimeout 0 ex_world
     = (Inl (Error (RunFailedWithStatus errored)),
        perform (ex_backend {} always_errored) (GetRunCall ''run-1'') ex_world)"
    using canceled_run_recorded_as_success[where be = "ex_backend {} always_errored"
        and w = ex_world and runId = "''run-1''" and startTime = 0 and timeout = defaultTimeout
        and run = "\<lparr>run_data_id = ''run-1'', status = errored\<rparr>", THEN conjunct1]
      poll_e intime_e st_e
    by blast
  have pe: "perform (ex_backend {} always_errored) (GetRunCall ''run-1'') ex_world
              = \<lparr>now = 0, trace = [GetRunCall ''run-1'']\<rparr>"
    by (simp add: perform_def requested_delay_def ex_backend_def ex_world_def)
  from e0 pe have e: "waitForRun_loop (ex_backend {} always_errored) ''run-1'' defaultTimeout 0 ex_world
     = (Inl (Error (RunFailedWithStatus errored)), \<lparr>now = 0, trace = [GetRunCall ''run-1'']\<rparr>)"
    by simp
  from a e show ?thesis by simp
qed

end
